theory Spec2Isabelle
  imports Main "HOL-Library.AList"
begin

unbundle bit_operations_syntax

section \<open>JavaScript values\<close>

text \<open>
  The program is TypeScript. A \<open>bigint\<close> is a two's-complement integer of no fixed width, so a
  board is an \<open>int\<close>: \<open>&\<close>, \<open>|\<close>, \<open>^\<close> and \<open>~\<close> are \<open>AND\<close>, \<open>OR\<close>, \<open>XOR\<close> and \<open>NOT\<close> on
  \<open>int\<close>, and nothing truncates a value to 64 bits. A \<open>number\<close> that the code uses as a
  coordinate, an index or an id is an \<open>int\<close> as well. Every \<open>throw\<close> of the source, and
  every \<open>TypeError\<close> that the language raises when a \<open>bigint\<close> meets \<open>undefined\<close>, is a
  value of the type \<open>error\<close>; a function that can raise returns \<open>error + 'a\<close>.
\<close>

datatype error =
    CurrentNodeNotFound
  | InvalidHandIndex
  | PieceAlreadyUsed
  | PieceIdMismatch
  | UnknownPieceId
  | CannotPlacePiece
  | Overlap
  | NodeNotFound
  | CannotDeleteRoot
  | CannotDeleteCurrent
  | HandNotThree
  | TypeError
  | RangeError

text \<open>\<open>a << BigInt(n)\<close>: a negative shift count shifts the other way.\<close>

definition js_shl :: "int \<Rightarrow> int \<Rightarrow> int" where
  "js_shl a n = (if 0 \<le> n then push_bit (nat n) a else drop_bit (nat (- n)) a)"

text \<open>\<open>a >> BigInt(n)\<close>, the sign-propagating shift.\<close>

definition js_shr :: "int \<Rightarrow> int \<Rightarrow> int" where
  "js_shr a n = (if 0 \<le> n then drop_bit (nat n) a else push_bit (nat (- n)) a)"

text \<open>
  The two shifts above are the shifts of the language on mathematical integers. They are
  what the engine computes wherever the count is an index of the board, \<open>0..63\<close>: in the
  loops that fill the mask tables and in \<open>setBit\<close> as \<open>pieceMaskAt\<close> calls it, behind
  \<open>isInBounds\<close>. Where the code shifts by a count that nothing has checked, two limits of
  the engine are part of what the code does.

  \<^item> A \<open>number\<close> is a double. \<open>*\<close> and \<open>+\<close> on numbers that hold integers give the exact
    result rounded to 53 significant bits, ties to the even significand, and a result of
    magnitude \<open>2 ^ 1024\<close> or more is not finite. A number is modelled by an \<open>int\<close>; an
    \<open>int\<close> of magnitude \<open>2 ^ 1024\<close> or more stands for a number that is not finite
    (\<open>Infinity\<close>, \<open>-Infinity\<close> or \<open>NaN\<close>), on which \<open>BigInt\<close> raises \<open>RangeError\<close>.
  \<^item> A \<open>bigint\<close> has a maximum size. V8, the engine of Node.js and of Chrome, raises
    \<open>RangeError\<close> when a shift to the left would give a value of more than \<open>2 ^ 30\<close> bits;
    \<open>0n\<close> shifted stays \<open>0n\<close>, and a shift to the right never raises. The bound is the
    engine's, not the program's: \<open>maxBigIntBits\<close>.
\<close>

fun bitLength :: "nat \<Rightarrow> nat" where
  "bitLength n = (if n = 0 then 0 else Suc (bitLength (n div 2)))"

declare bitLength.simps [simp del]

definition js_finite :: "int \<Rightarrow> bool" where
  "js_finite v \<longleftrightarrow> \<bar>v\<bar> < 2 ^ 1024"

definition js_round :: "int \<Rightarrow> int" where
  "js_round k =
     (if \<bar>k\<bar> \<le> 2 ^ 53 then k
      else
        let e = bitLength (nat \<bar>k\<bar>) - 53;
            q = \<bar>k\<bar> div 2 ^ e;
            r = \<bar>k\<bar> mod 2 ^ e;
            q' = (if 2 * r > 2 ^ e \<or> (2 * r = 2 ^ e \<and> odd q) then q + 1 else q)
        in sgn k * (q' * 2 ^ e))"

text \<open>\<open>a * b\<close> and \<open>a + b\<close> on numbers.\<close>

definition js_mul :: "int \<Rightarrow> int \<Rightarrow> int" where
  "js_mul a b = (if js_finite a \<and> js_finite b then js_round (a * b) else 2 ^ 1024)"

definition js_add :: "int \<Rightarrow> int \<Rightarrow> int" where
  "js_add a b = (if js_finite a \<and> js_finite b then js_round (a + b) else 2 ^ 1024)"

text \<open>\<open>BigInt(v)\<close> on a number that holds an integer or is not finite.\<close>

definition js_BigInt :: "int \<Rightarrow> error + int" where
  "js_BigInt v = (if js_finite v then Inr v else Inl RangeError)"

definition maxBigIntBits :: int where
  "maxBigIntBits = 2 ^ 30"

text \<open>\<open>a << n\<close> and \<open>a >> n\<close> on \<open>bigint\<close>s with the size limit; \<open>a >> n\<close> is \<open>a << -n\<close>.\<close>

definition bigint_shl :: "int \<Rightarrow> int \<Rightarrow> error + int" where
  "bigint_shl a n =
     (if n \<le> 0 then Inr (drop_bit (nat (- n)) a)
      else if a = 0 then Inr 0
      else if int (bitLength (nat \<bar>a\<bar>)) + n > maxBigIntBits then Inl RangeError
      else Inr (push_bit (nat n) a))"

definition bigint_shr :: "int \<Rightarrow> int \<Rightarrow> error + int" where
  "bigint_shr a n = bigint_shl a (- n)"

text \<open>\<open>arr[i]\<close>: \<open>undefined\<close> (here \<open>None\<close>) outside the array.\<close>

definition js_nth :: "'a list \<Rightarrow> int \<Rightarrow> 'a option" where
  "js_nth xs i = (if 0 \<le> i \<and> i < int (length xs) then Some (xs ! nat i) else None)"

section \<open>Bitboard\<close>

abbreviation (input) BOARD_SIZE :: int where
  "BOARD_SIZE \<equiv> 8"

definition rowMaskInit :: "int \<Rightarrow> int" where
  "rowMaskInit y = fold (\<lambda>x msk. msk OR js_shl 1 (y * BOARD_SIZE + x)) [0..BOARD_SIZE - 1] 0"

definition ROW_MASKS :: "int list" where
  "ROW_MASKS = map rowMaskInit [0..BOARD_SIZE - 1]"

definition colMaskInit :: "int \<Rightarrow> int" where
  "colMaskInit x = fold (\<lambda>y msk. msk OR js_shl 1 (y * BOARD_SIZE + x)) [0..BOARD_SIZE - 1] 0"

definition COL_MASKS :: "int list" where
  "COL_MASKS = map colMaskInit [0..BOARD_SIZE - 1]"

definition coordToIndex :: "int \<Rightarrow> int \<Rightarrow> int" where
  "coordToIndex x y = js_add (js_mul y BOARD_SIZE) x"

definition isInBounds :: "int \<Rightarrow> int \<Rightarrow> bool" where
  "isInBounds x y \<longleftrightarrow> x \<ge> 0 \<and> x < BOARD_SIZE \<and> y \<ge> 0 \<and> y < BOARD_SIZE"

definition setBit :: "int \<Rightarrow> int \<Rightarrow> int \<Rightarrow> int" where
  "setBit board x y = (let idx = coordToIndex x y in board OR js_shl 1 idx)"

text \<open>
  \<open>toggleBit\<close> is called with coordinates that nothing has checked: \<open>BigInt(idx)\<close> and the
  shift can raise.
\<close>

definition toggleBit :: "int \<Rightarrow> int \<Rightarrow> int \<Rightarrow> error + int" where
  "toggleBit board x y =
     (let idx = coordToIndex x y in
      case js_BigInt idx of
        Inl e \<Rightarrow> Inl e
      | Inr i \<Rightarrow> (case bigint_shl 1 i of Inl e \<Rightarrow> Inl e | Inr b \<Rightarrow> Inr (board XOR b)))"

text \<open>
  \<open>countBits\<close> shifts its argument right until it is \<open>0n\<close>. On a negative \<open>bigint\<close> the
  shift never reaches \<open>0n\<close> and the loop does not return: the value \<open>None\<close>.
\<close>

partial_function (option) countBits_loop :: "int \<Rightarrow> nat \<Rightarrow> nat option" where
  "countBits_loop b cnt =
     (if b \<noteq> 0 then countBits_loop (js_shr b 1) (cnt + nat (b AND 1)) else Some cnt)"

declare countBits_loop.simps [code]

definition countBits :: "int \<Rightarrow> nat option" where
  "countBits board = countBits_loop board 0"

text \<open>
  \<open>(board & ROW_MASKS[y]) === ROW_MASKS[y]\<close>: outside \<open>0..7\<close> the table gives \<open>undefined\<close> and
  \<open>&\<close> raises.
\<close>

definition isRowFilled :: "int \<Rightarrow> int \<Rightarrow> error + bool" where
  "isRowFilled board y =
     (case js_nth ROW_MASKS y of None \<Rightarrow> Inl TypeError | Some m \<Rightarrow> Inr (board AND m = m))"

definition isColFilled :: "int \<Rightarrow> int \<Rightarrow> error + bool" where
  "isColFilled board x =
     (case js_nth COL_MASKS x of None \<Rightarrow> Inl TypeError | Some m \<Rightarrow> Inr (board AND m = m))"

function getFilledRows_loop :: "int \<Rightarrow> int \<Rightarrow> int list \<Rightarrow> error + int list" where
  "getFilledRows_loop board y filled =
     (if y < BOARD_SIZE then
        (case isRowFilled board y of
           Inl e \<Rightarrow> Inl e
         | Inr f \<Rightarrow> getFilledRows_loop board (y + 1) (if f then filled @ [y] else filled))
      else Inr filled)"
  by pat_completeness auto
termination
  by (relation "measure (\<lambda>(board, y, filled). nat (BOARD_SIZE - y))") auto

declare getFilledRows_loop.simps [simp del]

definition getFilledRows :: "int \<Rightarrow> error + int list" where
  "getFilledRows board = getFilledRows_loop board 0 []"

function getFilledCols_loop :: "int \<Rightarrow> int \<Rightarrow> int list \<Rightarrow> error + int list" where
  "getFilledCols_loop board x filled =
     (if x < BOARD_SIZE then
        (case isColFilled board x of
           Inl e \<Rightarrow> Inl e
         | Inr f \<Rightarrow> getFilledCols_loop board (x + 1) (if f then filled @ [x] else filled))
      else Inr filled)"
  by pat_completeness auto
termination
  by (relation "measure (\<lambda>(board, x, filled). nat (BOARD_SIZE - x))") auto

declare getFilledCols_loop.simps [simp del]

definition getFilledCols :: "int \<Rightarrow> error + int list" where
  "getFilledCols board = getFilledCols_loop board 0 []"

text \<open>\<open>clearMask |= TABLE[i]\<close> for each index of a caller's array.\<close>

fun orMasks :: "int list \<Rightarrow> int list \<Rightarrow> int \<Rightarrow> error + int" where
  "orMasks tbl [] clearMask = Inr clearMask"
| "orMasks tbl (i # is) clearMask =
     (case js_nth tbl i of
        None \<Rightarrow> Inl TypeError
      | Some m \<Rightarrow> orMasks tbl is (clearMask OR m))"

definition clearLines :: "int \<Rightarrow> int list \<Rightarrow> int list \<Rightarrow> error + int" where
  "clearLines board rows cols =
     (case orMasks ROW_MASKS rows 0 of
        Inl e \<Rightarrow> Inl e
      | Inr rowsMask \<Rightarrow>
          (case orMasks COL_MASKS cols rowsMask of
             Inl e \<Rightarrow> Inl e
           | Inr clearMask \<Rightarrow> Inr (board AND NOT clearMask)))"

section \<open>Placement engine\<close>

record PlacementResult =
  newBoard :: int
  boardBeforeClear :: int
  clearedRows :: "int list"
  clearedCols :: "int list"
  cellsCleared :: int

definition cellsClearedOf :: "int list \<Rightarrow> int list \<Rightarrow> int" where
  "cellsClearedOf rows cols =
     (if length rows > 0 \<or> length cols > 0
      then int (length rows) * BOARD_SIZE + int (length cols) * BOARD_SIZE
             - int (length rows) * int (length cols)
      else 0)"

definition placePiece :: "int \<Rightarrow> int \<Rightarrow> error + PlacementResult" where
  "placePiece board pieceMask =
     (let beforeClear = board OR pieceMask in
      case getFilledRows beforeClear of
        Inl e \<Rightarrow> Inl e
      | Inr rows \<Rightarrow>
          (case getFilledCols beforeClear of
             Inl e \<Rightarrow> Inl e
           | Inr cols \<Rightarrow>
               (case clearLines beforeClear rows cols of
                  Inl e \<Rightarrow> Inl e
                | Inr cleared \<Rightarrow>
                    Inr \<lparr>newBoard = cleared, boardBeforeClear = beforeClear,
                         clearedRows = rows, clearedCols = cols,
                         cellsCleared = cellsClearedOf rows cols\<rparr>)))"

section \<open>Piece catalog and placement geometry\<close>

record Piece =
  piece_id :: int
  piece_w :: int
  piece_h :: int
  piece_cells :: "(int \<times> int) list"
  piece_hash :: string

record Placement =
  pl_x :: int
  pl_y :: int
  pl_mask :: int

text \<open>
  The catalog file \<open>pieces.json\<close> is not part of the sources: the array \<open>rawPieces\<close> read
  from it is a parameter \<open>raw\<close> of everything that uses the catalog. A JavaScript \<open>Map\<close>
  that the code iterates is an association list in insertion order; \<open>Map.set\<close> is
  \<open>AList.update\<close> (an existing key keeps its place, a new key goes to the end) and
  \<open>Map.get\<close> is \<open>map_of\<close>.
\<close>

definition PIECES :: "Piece list \<Rightarrow> (int \<times> Piece) list" where
  "PIECES raw = fold (\<lambda>p m. AList.update (piece_id p) p m) raw []"

fun pieceMaskAt_loop :: "int \<Rightarrow> int \<Rightarrow> (int \<times> int) list \<Rightarrow> int \<Rightarrow> int" where
  "pieceMaskAt_loop px py [] msk = msk"
| "pieceMaskAt_loop px py ((dx, dy) # cs) msk =
     (let x = px + dx; y = py + dy in
      if \<not> isInBounds x y then 0
      else pieceMaskAt_loop px py cs (setBit msk x y))"

definition pieceMaskAt :: "Piece \<Rightarrow> int \<Rightarrow> int \<Rightarrow> int" where
  "pieceMaskAt piece px py =
     (if px < 0 \<or> py < 0 \<or> px + piece_w piece > BOARD_SIZE \<or> py + piece_h piece > BOARD_SIZE
      then 0
      else pieceMaskAt_loop px py (piece_cells piece) 0)"

definition canPlace :: "int \<Rightarrow> Piece \<Rightarrow> int \<Rightarrow> int \<Rightarrow> bool" where
  "canPlace board piece px py =
     (if px < 0 \<or> py < 0 \<or> px + piece_w piece > BOARD_SIZE \<or> py + piece_h piece > BOARD_SIZE
      then False
      else let msk = pieceMaskAt piece px py in
           if msk = 0 then False else board AND msk = 0)"

text \<open>The two nested loops of \<open>precomputeAllPlacements\<close> for one piece: rows outside, columns inside.\<close>

definition placementsOf :: "Piece \<Rightarrow> Placement list" where
  "placementsOf piece =
     concat (map (\<lambda>py.
       concat (map (\<lambda>px.
         let msk = pieceMaskAt piece px py in
         if msk \<noteq> 0 then [\<lparr>pl_x = px, pl_y = py, pl_mask = msk\<rparr>] else [])
       [0..BOARD_SIZE - piece_w piece]))
     [0..BOARD_SIZE - piece_h piece])"

definition precomputeAllPlacements :: "Piece list \<Rightarrow> (int \<times> Placement list) list" where
  "precomputeAllPlacements raw =
     fold (\<lambda>piece result. AList.update (piece_id piece) (placementsOf piece) result)
       (map snd (PIECES raw)) []"

definition PRECOMPUTED_PLACEMENTS :: "Piece list \<Rightarrow> (int \<times> Placement list) list" where
  "PRECOMPUTED_PLACEMENTS raw = precomputeAllPlacements raw"

definition computeMobility :: "Piece list \<Rightarrow> int \<Rightarrow> int" where
  "computeMobility raw board =
     fold (\<lambda>(pieceId, placements) total.
             fold (\<lambda>p total. if board AND pl_mask p = 0 then total + 1 else total) placements total)
       (PRECOMPUTED_PLACEMENTS raw) 0"

section \<open>Solver\<close>

record SolutionStep =
  step_pieceId :: int
  step_handIndex :: "int option"
  step_x :: int
  step_y :: int
  step_clearedRows :: "int list"
  step_clearedCols :: "int list"
  step_boardAfter :: int

record Solution =
  steps :: "SolutionStep list"
  finalBoard :: int
  mobility :: int
  sol_order :: "int option list"

text \<open>
  The generator \<open>permutations\<close> yields its results in a fixed order; the list of them, in
  that order, is what the callers' \<open>for ... of\<close> loops see.
\<close>

function permutations :: "'a list \<Rightarrow> 'a list list" where
  "permutations arr =
     (if length arr \<le> 1 then [arr]
      else concat (map (\<lambda>i. map (\<lambda>perm. arr ! i # perm)
                                (permutations (take i arr @ drop (i + 1) arr)))
                   [0..<length arr]))"
  by pat_completeness auto
termination
  by (relation "measure length") auto

declare permutations.simps [simp del]

definition getLegalPlacements :: "Piece list \<Rightarrow> int \<Rightarrow> int \<Rightarrow> Placement list" where
  "getLegalPlacements raw board pieceId =
     (case map_of (PRECOMPUTED_PLACEMENTS raw) pieceId of
        None \<Rightarrow> []
      | Some precomputed \<Rightarrow> filter (\<lambda>p. board AND pl_mask p = 0) precomputed)"

text \<open>
  \<open>dfs\<close> returns \<open>Inr None\<close> for \<open>null\<close>. \<open>dfs_for\<close> is its \<open>for (const p of placements)\<close>
  loop on the placements still to try. \<open>order[depth]\<close> beyond the array is \<open>undefined\<close>, for
  which the placement table has no entry. An entry of \<open>handIndices\<close> may be \<open>undefined\<close>
  (\<open>solvePartial\<close> builds it from the caller's array), so it is an \<open>int option\<close>.
\<close>

function dfs ::
    "Piece list \<Rightarrow> int \<Rightarrow> int list \<Rightarrow> int option list \<Rightarrow> nat \<Rightarrow> SolutionStep list \<Rightarrow> bool
      \<Rightarrow> error + SolutionStep list option"
  and dfs_for ::
    "Piece list \<Rightarrow> int \<Rightarrow> int list \<Rightarrow> int option list \<Rightarrow> nat \<Rightarrow> SolutionStep list \<Rightarrow> bool
      \<Rightarrow> int \<Rightarrow> int option \<Rightarrow> Placement list \<Rightarrow> error + SolutionStep list option"
where
  "dfs raw board order handIndices depth path earlyExit =
     (if depth = length order then Inr (Some path)
      else
        (case js_nth order (int depth) of
           None \<Rightarrow> Inr None
         | Some pieceId \<Rightarrow>
             dfs_for raw board order handIndices depth path earlyExit pieceId
               (case js_nth handIndices (int depth) of None \<Rightarrow> None | Some h \<Rightarrow> h)
               (getLegalPlacements raw board pieceId)))"
| "dfs_for raw board order handIndices depth path earlyExit pieceId handIndex [] = Inr None"
| "dfs_for raw board order handIndices depth path earlyExit pieceId handIndex (p # ps) =
     (case placePiece board (pl_mask p) of
        Inl e \<Rightarrow> Inl e
      | Inr result \<Rightarrow>
          (case dfs raw (newBoard result) order handIndices (depth + 1)
                  (path @ [\<lparr>step_pieceId = pieceId, step_handIndex = handIndex,
                            step_x = pl_x p, step_y = pl_y p,
                            step_clearedRows = clearedRows result,
                            step_clearedCols = clearedCols result,
                            step_boardAfter = newBoard result\<rparr>])
                  earlyExit of
             Inl e \<Rightarrow> Inl e
           | Inr (Some res) \<Rightarrow> Inr (Some res)
           | Inr None \<Rightarrow>
               dfs_for raw board order handIndices depth path earlyExit pieceId handIndex ps))"
  by pat_completeness auto
termination
  by (relation "inv_image (less_than <*lex*> less_than)
        (\<lambda>v. case v of
           Inl (raw, board, order, handIndices, depth, path, earlyExit) \<Rightarrow>
             (2 * (length order - depth), 0)
         | Inr (raw, board, order, handIndices, depth, path, earlyExit, pieceId, handIndex, ps) \<Rightarrow>
             (2 * (length order - (depth + 1)) + 1, length ps))")
     (auto simp: js_nth_def split: if_splits)

declare dfs.simps [simp del]

text \<open>
  \<open>steps[steps.length - 1].boardAfter\<close>: on an empty array the read of \<open>boardAfter\<close> raises.
  The loops over the orderings read \<open>hand[i]\<close> only for the indices 0, 1 and 2 of a hand
  whose length has just been checked to be 3 (in \<open>solvePartial\<close>: for the indices below
  the length of \<open>remainingPieces\<close>), so the read is \<open>hand ! i\<close>.
\<close>

definition lastBoardAfter :: "SolutionStep list \<Rightarrow> error + int" where
  "lastBoardAfter path = (if path = [] then Inl TypeError else Inr (step_boardAfter (last path)))"

fun solveTriple_for :: "Piece list \<Rightarrow> int \<Rightarrow> int list \<Rightarrow> nat list list \<Rightarrow> error + Solution option" where
  "solveTriple_for raw board hand [] = Inr None"
| "solveTriple_for raw board hand (order # rest) =
     (let pieceOrder = map (\<lambda>i. hand ! i) order in
      case dfs raw board pieceOrder (map (\<lambda>i. Some (int i)) order) 0 [] True of
        Inl e \<Rightarrow> Inl e
      | Inr (Some steps0) \<Rightarrow>
          (case lastBoardAfter steps0 of
             Inl e \<Rightarrow> Inl e
           | Inr final \<Rightarrow>
               Inr (Some \<lparr>steps = steps0, finalBoard = final,
                          mobility = computeMobility raw final,
                          sol_order = map Some pieceOrder\<rparr>))
      | Inr None \<Rightarrow> solveTriple_for raw board hand rest)"

definition solveTriple :: "Piece list \<Rightarrow> int \<Rightarrow> int list \<Rightarrow> error + Solution option" where
  "solveTriple raw board hand =
     (if length hand \<noteq> 3 then Inl HandNotThree
      else solveTriple_for raw board hand (permutations [0, 1, 2]))"

text \<open>
  \<open>dfsAll\<close> is a closure over \<open>hand\<close>, \<open>maxSolutions\<close> and the array \<open>solutions\<close> that it
  pushes to: the array is passed in and returned. In the \<open>order\<close> field of a solution the
  code indexes \<open>handIndices\<close> with the elements of \<open>order\<close>, which are piece ids; the
  entries that fall outside are \<open>undefined\<close>.
\<close>

function dfsAll ::
    "Piece list \<Rightarrow> int list \<Rightarrow> int \<Rightarrow> int \<Rightarrow> int list \<Rightarrow> int list \<Rightarrow> nat \<Rightarrow> SolutionStep list
      \<Rightarrow> Solution list \<Rightarrow> error + Solution list"
  and dfsAll_for ::
    "Piece list \<Rightarrow> int list \<Rightarrow> int \<Rightarrow> int \<Rightarrow> int list \<Rightarrow> int list \<Rightarrow> nat \<Rightarrow> SolutionStep list
      \<Rightarrow> int \<Rightarrow> int option \<Rightarrow> Placement list \<Rightarrow> Solution list \<Rightarrow> error + Solution list"
where
  "dfsAll raw hand maxSolutions currentBoard order handIndices depth path solutions =
     (if int (length solutions) \<ge> maxSolutions then Inr solutions
      else if depth = length order then
        (case lastBoardAfter path of
           Inl e \<Rightarrow> Inl e
         | Inr final \<Rightarrow>
             Inr (solutions @
                  [\<lparr>steps = path, finalBoard = final,
                    mobility = computeMobility raw final,
                    sol_order = map (\<lambda>i. case js_nth handIndices i of
                                            None \<Rightarrow> None
                                          | Some j \<Rightarrow> js_nth hand j) order\<rparr>]))
      else
        (case js_nth order (int depth) of
           None \<Rightarrow> Inr solutions
         | Some pieceId \<Rightarrow>
             dfsAll_for raw hand maxSolutions currentBoard order handIndices depth path pieceId
               (js_nth handIndices (int depth))
               (getLegalPlacements raw currentBoard pieceId) solutions))"
| "dfsAll_for raw hand maxSolutions currentBoard order handIndices depth path pieceId handIndex
     [] solutions = Inr solutions"
| "dfsAll_for raw hand maxSolutions currentBoard order handIndices depth path pieceId handIndex
     (p # ps) solutions =
     (if int (length solutions) \<ge> maxSolutions then Inr solutions
      else
        (case placePiece currentBoard (pl_mask p) of
           Inl e \<Rightarrow> Inl e
         | Inr result \<Rightarrow>
             (case dfsAll raw hand maxSolutions (newBoard result) order handIndices (depth + 1)
                     (path @ [\<lparr>step_pieceId = pieceId, step_handIndex = handIndex,
                               step_x = pl_x p, step_y = pl_y p,
                               step_clearedRows = clearedRows result,
                               step_clearedCols = clearedCols result,
                               step_boardAfter = newBoard result\<rparr>])
                     solutions of
                Inl e \<Rightarrow> Inl e
              | Inr solutions' \<Rightarrow>
                  dfsAll_for raw hand maxSolutions currentBoard order handIndices depth path
                    pieceId handIndex ps solutions')))"
  by pat_completeness auto
termination
  by (relation "inv_image (less_than <*lex*> less_than)
        (\<lambda>v. case v of
           Inl (raw, hand, maxSolutions, currentBoard, order, handIndices, depth, path, solutions) \<Rightarrow>
             (2 * (length order - depth), 0)
         | Inr (raw, hand, maxSolutions, currentBoard, order, handIndices, depth, path, pieceId,
                handIndex, ps, solutions) \<Rightarrow>
             (2 * (length order - (depth + 1)) + 1, length ps))")
     (auto simp: js_nth_def split: if_splits)

declare dfsAll.simps [simp del]

fun findAllSolutions_for ::
  "Piece list \<Rightarrow> int \<Rightarrow> int list \<Rightarrow> int \<Rightarrow> nat list list \<Rightarrow> Solution list \<Rightarrow> error + Solution list" where
  "findAllSolutions_for raw board hand maxSolutions [] solutions = Inr solutions"
| "findAllSolutions_for raw board hand maxSolutions (orderIndices # rest) solutions =
     (if int (length solutions) \<ge> maxSolutions then Inr solutions
      else
        (let pieceOrder = map (\<lambda>i. hand ! i) orderIndices in
         case dfsAll raw hand maxSolutions board pieceOrder (map int orderIndices) 0 [] solutions of
           Inl e \<Rightarrow> Inl e
         | Inr solutions' \<Rightarrow> findAllSolutions_for raw board hand maxSolutions rest solutions'))"

definition findAllSolutions :: "Piece list \<Rightarrow> int \<Rightarrow> int list \<Rightarrow> int \<Rightarrow> error + Solution list" where
  "findAllSolutions raw board hand maxSolutions =
     (if length hand \<noteq> 3 then Inl HandNotThree
      else findAllSolutions_for raw board hand maxSolutions (permutations [0, 1, 2]) [])"

text \<open>
  \<open>solutions.sort((a, b) => b.mobility - a.mobility)\<close>: \<open>Array.prototype.sort\<close> is stable,
  as is the insertion sort \<open>sort_key\<close>; the key is the negated mobility.
\<close>

definition findBestSolution :: "Piece list \<Rightarrow> int \<Rightarrow> int list \<Rightarrow> int \<Rightarrow> error + Solution option" where
  "findBestSolution raw board hand maxSolutions =
     (case findAllSolutions raw board hand maxSolutions of
        Inl e \<Rightarrow> Inl e
      | Inr solutions \<Rightarrow>
          if length solutions = 0 then Inr None
          else Inr (Some (sort_key (\<lambda>s. - mobility s) solutions ! 0)))"

fun solvePartial_for ::
  "Piece list \<Rightarrow> int \<Rightarrow> int list \<Rightarrow> int list \<Rightarrow> nat list list \<Rightarrow> error + Solution option" where
  "solvePartial_for raw board remainingPieces handIndices [] = Inr None"
| "solvePartial_for raw board remainingPieces handIndices (order # rest) =
     (let pieceOrder = map (\<lambda>i. remainingPieces ! i) order;
          mappedIndices = map (\<lambda>i. js_nth handIndices (int i)) order in
      case dfs raw board pieceOrder mappedIndices 0 [] True of
        Inl e \<Rightarrow> Inl e
      | Inr (Some steps0) \<Rightarrow>
          (let final = (if length steps0 > 0 then step_boardAfter (last steps0) else board) in
           Inr (Some \<lparr>steps = steps0, finalBoard = final,
                      mobility = computeMobility raw final,
                      sol_order = map Some pieceOrder\<rparr>))
      | Inr None \<Rightarrow> solvePartial_for raw board remainingPieces handIndices rest)"

definition solvePartial :: "Piece list \<Rightarrow> int \<Rightarrow> int list \<Rightarrow> int list \<Rightarrow> error + Solution option" where
  "solvePartial raw board remainingPieces handIndices =
     (if length remainingPieces = 0
      then Inr (Some \<lparr>steps = [], finalBoard = board, mobility = computeMobility raw board,
                      sol_order = []\<rparr>)
      else solvePartial_for raw board remainingPieces handIndices
             (permutations [0..<length remainingPieces]))"

section \<open>State tree\<close>

type_synonym NodeId = string

datatype Move =
    PLACE int int int int "int list" "int list"
  | EDIT_CELL int int bool
  | SET_HAND "int list" "int list"

record GameNode =
  node_id :: NodeId
  parentId :: "NodeId option"
  childrenIds :: "NodeId list"
  board :: int
  hand :: "int list"
  handUsed :: "bool list"
  lastMove :: "Move option"
  createdAt :: int
  node_note :: "string option"

record StateTree =
  nodes :: "NodeId \<rightharpoonup> GameNode"
  currentNodeId :: NodeId
  rootNodeId :: NodeId

text \<open>
  \<open>generateNodeId()\<close> and \<open>Date.now()\<close> read the clock and the random generator. Their
  results are the parameters \<open>newNodeId\<close> and \<open>now\<close> of the operations that create a node.
  \<open>PLACE pieceId handIndex x y clearedRows clearedCols\<close>, \<open>EDIT_CELL x y wasOccupied\<close> and
  \<open>SET_HAND previousHand newHand\<close> are the three kinds of \<open>Move\<close>.
\<close>

definition createInitialTree :: "NodeId \<Rightarrow> int \<Rightarrow> int \<Rightarrow> int list \<Rightarrow> StateTree" where
  "createInitialTree rootId now board0 hand0 =
     (let rootNode = \<lparr>node_id = rootId, parentId = None, childrenIds = [], board = board0,
                       hand = hand0, handUsed = map (\<lambda>_. False) hand0, lastMove = None,
                       createdAt = now, node_note = None\<rparr>
      in \<lparr>nodes = Map.empty(rootId \<mapsto> rootNode), currentNodeId = rootId, rootNodeId = rootId\<rparr>)"

definition getCurrentNode :: "StateTree \<Rightarrow> error + GameNode" where
  "getCurrentNode tree =
     (case nodes tree (currentNodeId tree) of
        None \<Rightarrow> Inl CurrentNodeNotFound
      | Some node \<Rightarrow> Inr node)"

text \<open>
  \<open>arr[i] = v\<close> on a copy of a boolean array: beyond the end the array grows, and the
  holes in between read as \<open>undefined\<close>, which every test of the code takes for \<open>false\<close>.
\<close>

definition js_set :: "bool list \<Rightarrow> int \<Rightarrow> bool \<Rightarrow> bool list" where
  "js_set xs i v =
     (if i < 0 then xs
      else if i < int (length xs) then xs[nat i := v]
      else xs @ replicate (nat i - length xs) False @ [v])"

definition applyPlaceMove ::
  "Piece list \<Rightarrow> NodeId \<Rightarrow> int \<Rightarrow> StateTree \<Rightarrow> int \<Rightarrow> int \<Rightarrow> int \<Rightarrow> int \<Rightarrow> error + StateTree" where
  "applyPlaceMove raw newNodeId now tree pieceId handIndex x y =
     (case getCurrentNode tree of
        Inl e \<Rightarrow> Inl e
      | Inr currentNode \<Rightarrow>
          if handIndex < 0 \<or> handIndex \<ge> int (length (hand currentNode)) then Inl InvalidHandIndex
          else if js_nth (handUsed currentNode) handIndex = Some True then Inl PieceAlreadyUsed
          else if js_nth (hand currentNode) handIndex \<noteq> Some pieceId then Inl PieceIdMismatch
          else
            (case map_of (PIECES raw) pieceId of
               None \<Rightarrow> Inl UnknownPieceId
             | Some piece \<Rightarrow>
                 let msk = pieceMaskAt piece x y in
                 if msk = 0 then Inl CannotPlacePiece
                 else if board currentNode AND msk \<noteq> 0 then Inl Overlap
                 else
                   (case placePiece (board currentNode) msk of
                      Inl e \<Rightarrow> Inl e
                    | Inr result \<Rightarrow>
                        let newHandUsed = js_set (handUsed currentNode) handIndex True;
                            move = PLACE pieceId handIndex x y
                                     (clearedRows result) (clearedCols result);
                            newNode = \<lparr>node_id = newNodeId, parentId = Some (node_id currentNode),
                                       childrenIds = [], board = newBoard result,
                                       hand = hand currentNode, handUsed = newHandUsed,
                                       lastMove = Some move, createdAt = now, node_note = None\<rparr>;
                            updatedParent =
                              currentNode\<lparr>childrenIds := childrenIds currentNode @ [newNodeId]\<rparr>;
                            newNodes = (nodes tree)(node_id currentNode \<mapsto> updatedParent,
                                                    newNodeId \<mapsto> newNode)
                        in Inr (tree\<lparr>nodes := newNodes, currentNodeId := newNodeId\<rparr>))))"

definition applyEditCellMove :: "NodeId \<Rightarrow> int \<Rightarrow> StateTree \<Rightarrow> int \<Rightarrow> int \<Rightarrow> error + StateTree" where
  "applyEditCellMove newNodeId now tree x y =
     (case getCurrentNode tree of
        Inl e \<Rightarrow> Inl e
      | Inr currentNode \<Rightarrow>
          (case js_BigInt (js_add (js_mul y 8) x) of
             Inl e \<Rightarrow> Inl e
           | Inr i \<Rightarrow>
               (case bigint_shr (board currentNode) i of
                  Inl e \<Rightarrow> Inl e
                | Inr shifted \<Rightarrow>
                    let wasOccupied = (shifted AND 1 = 1) in
                    (case toggleBit (board currentNode) x y of
                       Inl e \<Rightarrow> Inl e
                     | Inr newBoard' \<Rightarrow>
                         let move = EDIT_CELL x y wasOccupied;
                             newNode = \<lparr>node_id = newNodeId,
                                        parentId = Some (node_id currentNode),
                                        childrenIds = [], board = newBoard',
                                        hand = hand currentNode,
                                        handUsed = handUsed currentNode,
                                        lastMove = Some move, createdAt = now,
                                        node_note = None\<rparr>;
                             updatedParent =
                               currentNode\<lparr>childrenIds := childrenIds currentNode @ [newNodeId]\<rparr>;
                             newNodes = (nodes tree)(node_id currentNode \<mapsto> updatedParent,
                                                     newNodeId \<mapsto> newNode)
                         in Inr (tree\<lparr>nodes := newNodes, currentNodeId := newNodeId\<rparr>)))))"

definition applySetHandMove :: "NodeId \<Rightarrow> int \<Rightarrow> StateTree \<Rightarrow> int list \<Rightarrow> error + StateTree" where
  "applySetHandMove newNodeId now tree newHand =
     (case getCurrentNode tree of
        Inl e \<Rightarrow> Inl e
      | Inr currentNode \<Rightarrow>
          let move = SET_HAND (hand currentNode) newHand;
              newNode = \<lparr>node_id = newNodeId, parentId = Some (node_id currentNode),
                         childrenIds = [], board = board currentNode,
                         hand = newHand, handUsed = map (\<lambda>_. False) newHand,
                         lastMove = Some move, createdAt = now, node_note = None\<rparr>;
              updatedParent = currentNode\<lparr>childrenIds := childrenIds currentNode @ [newNodeId]\<rparr>;
              newNodes = (nodes tree)(node_id currentNode \<mapsto> updatedParent,
                                      newNodeId \<mapsto> newNode)
          in Inr (tree\<lparr>nodes := newNodes, currentNodeId := newNodeId\<rparr>))"

definition checkout :: "StateTree \<Rightarrow> NodeId \<Rightarrow> error + StateTree" where
  "checkout tree nodeId =
     (if nodes tree nodeId = None then Inl NodeNotFound
      else Inr (tree\<lparr>currentNodeId := nodeId\<rparr>))"

definition undo :: "StateTree \<Rightarrow> error + StateTree" where
  "undo tree =
     (case getCurrentNode tree of
        Inl e \<Rightarrow> Inl e
      | Inr currentNode \<Rightarrow>
          (case parentId currentNode of
             None \<Rightarrow> Inr tree
           | Some parent \<Rightarrow> checkout tree parent))"

definition redo :: "StateTree \<Rightarrow> error + StateTree" where
  "redo tree =
     (case getCurrentNode tree of
        Inl e \<Rightarrow> Inl e
      | Inr currentNode \<Rightarrow>
          if length (childrenIds currentNode) = 0 then Inr tree
          else let lastChildId = childrenIds currentNode ! (length (childrenIds currentNode) - 1)
               in checkout tree lastChildId)"

text \<open>
  The breadth-first loop of \<open>deleteBranch\<close>. \<open>toDelete\<close> is a \<open>Set\<close>, kept as a list
  without repetitions in insertion order. Nothing stops the loop on a node map whose
  child lists form a cycle: not returning is the value \<open>None\<close>.
\<close>

partial_function (option) collectDescendants ::
  "(NodeId \<rightharpoonup> GameNode) \<Rightarrow> NodeId list \<Rightarrow> NodeId list \<Rightarrow> NodeId list option" where
  "collectDescendants ns queue toDelete =
     (case queue of
        [] \<Rightarrow> Some toDelete
      | i # rest \<Rightarrow>
          (let toDelete' = (if i \<in> set toDelete then toDelete else toDelete @ [i]) in
           case ns i of
             None \<Rightarrow> collectDescendants ns rest toDelete'
           | Some node \<Rightarrow> collectDescendants ns (rest @ childrenIds node) toDelete'))"

declare collectDescendants.simps [code]

definition deleteBranch :: "StateTree \<Rightarrow> NodeId \<Rightarrow> (error + StateTree) option" where
  "deleteBranch tree nodeId =
     (if nodeId = rootNodeId tree then Some (Inl CannotDeleteRoot)
      else if nodeId = currentNodeId tree then Some (Inl CannotDeleteCurrent)
      else
        (case nodes tree nodeId of
           None \<Rightarrow> Some (Inr tree)
         | Some nodeToDelete \<Rightarrow>
             (case collectDescendants (nodes tree) [nodeId] [] of
                None \<Rightarrow> None
              | Some toDelete \<Rightarrow>
                  let removed = fold (\<lambda>i m. m(i := None)) toDelete (nodes tree);
                      newNodes =
                        (case parentId nodeToDelete of
                           None \<Rightarrow> removed
                         | Some p \<Rightarrow>
                             if p = [] then removed
                             else
                               (case removed p of
                                  None \<Rightarrow> removed
                                | Some parent \<Rightarrow>
                                    removed(p \<mapsto> parent\<lparr>childrenIds :=
                                      filter (\<lambda>i. i \<noteq> nodeId) (childrenIds parent)\<rparr>)))
                  in Some (Inr (tree\<lparr>nodes := newNodes\<rparr>)))))"

section \<open>Closed forms and predicates for the statements\<close>

text \<open>
  What the loops of the bitboard compute, written without loops and without the error
  cases; the lemmas below show that the functions above return exactly these values.
\<close>

definition rowsFilledIn :: "int \<Rightarrow> int list" where
  "rowsFilledIn b = filter (\<lambda>i. b AND ROW_MASKS ! nat i = ROW_MASKS ! nat i) [0..7]"

definition colsFilledIn :: "int \<Rightarrow> int list" where
  "colsFilledIn b = filter (\<lambda>i. b AND COL_MASKS ! nat i = COL_MASKS ! nat i) [0..7]"

definition clearMaskFor :: "int list \<Rightarrow> int list \<Rightarrow> int" where
  "clearMaskFor rows cols =
     fold (\<lambda>i c. c OR COL_MASKS ! nat i) cols (fold (\<lambda>i c. c OR ROW_MASKS ! nat i) rows 0)"

definition placed :: "int \<Rightarrow> int \<Rightarrow> PlacementResult" where
  "placed b m =
     (let pb = b OR m; rows = rowsFilledIn pb; cols = colsFilledIn pb in
      \<lparr>newBoard = pb AND NOT (clearMaskFor rows cols), boardBeforeClear = pb,
       clearedRows = rows, clearedCols = cols, cellsCleared = cellsClearedOf rows cols\<rparr>)"

text \<open>The number of set bits of a non-negative integer.\<close>

definition popcount :: "int \<Rightarrow> nat" where
  "popcount b = card {n. bit b n}"

text \<open>
  A catalog piece is well formed when its cell offsets are distinct, lie inside the
  \<open>w \<times> h\<close> box, and touch the box's first row and first column.
\<close>

definition wellFormedPiece :: "Piece \<Rightarrow> bool" where
  "wellFormedPiece p \<longleftrightarrow>
     distinct (piece_cells p) \<and>
     list_all (\<lambda>(dx, dy). 0 \<le> dx \<and> dx < piece_w p \<and> 0 \<le> dy \<and> dy < piece_h p) (piece_cells p) \<and>
     list_ex (\<lambda>(dx, dy). dx = 0) (piece_cells p) \<and>
     list_ex (\<lambda>(dx, dy). dy = 0) (piece_cells p)"

section \<open>The solver's search space\<close>

text \<open>
  What the specification says of the search, without the search: a list of piece ids can
  be placed from a board when it is empty, or when its first piece has a legal anchor
  (\<open>canPlace\<close>) such that the rest can be placed from the board after that placement.
\<close>

inductive placeable :: "Piece list \<Rightarrow> int \<Rightarrow> int list \<Rightarrow> bool" for raw :: "Piece list" where
  placeable_Nil: "placeable raw b []"
| placeable_Cons:
    "map_of (PIECES raw) pieceId = Some piece \<Longrightarrow> canPlace b piece x y \<Longrightarrow>
     placePiece b (pieceMaskAt piece x y) = Inr r \<Longrightarrow> placeable raw (newBoard r) rest \<Longrightarrow>
     placeable raw b (pieceId # rest)"

text \<open>
  The complete placement sequences for pieces taken in a given order, as the lists of
  steps the solver records, enumerated depth first: for each legal placement of the first
  piece, in the order of the placement table, all the sequences that start with it.
  Each piece comes with the hand index that the step records.
\<close>

definition stepRecord :: "int \<Rightarrow> int option \<Rightarrow> Placement \<Rightarrow> PlacementResult \<Rightarrow> SolutionStep" where
  "stepRecord pieceId handIndex p r =
     \<lparr>step_pieceId = pieceId, step_handIndex = handIndex, step_x = pl_x p, step_y = pl_y p,
      step_clearedRows = clearedRows r, step_clearedCols = clearedCols r,
      step_boardAfter = newBoard r\<rparr>"

fun completions :: "Piece list \<Rightarrow> int \<Rightarrow> (int \<times> int option) list \<Rightarrow> SolutionStep list list" where
  "completions raw b [] = [[]]"
| "completions raw b ((pieceId, handIndex) # rest) =
     concat (map (\<lambda>p. map ((#) (stepRecord pieceId handIndex p (placed b (pl_mask p))))
                          (completions raw (newBoard (placed b (pl_mask p))) rest))
                 (getLegalPlacements raw b pieceId))"

text \<open>
  The pieces and hand indices that \<open>dfs\<close> and \<open>dfsAll\<close> read from depth \<open>depth\<close> on, and the
  first of a list of completions appended to the path so far (\<open>None\<close> when there is none).
\<close>

definition dfsPairs :: "int list \<Rightarrow> int option list \<Rightarrow> nat \<Rightarrow> (int \<times> int option) list" where
  "dfsPairs order handIndices depth =
     map (\<lambda>d. (order ! d, case js_nth handIndices (int d) of None \<Rightarrow> None | Some h \<Rightarrow> h))
       [depth..<length order]"

definition dfsAllPairs :: "int list \<Rightarrow> int list \<Rightarrow> nat \<Rightarrow> (int \<times> int option) list" where
  "dfsAllPairs order handIndices depth =
     map (\<lambda>d. (order ! d, js_nth handIndices (int d))) [depth..<length order]"

definition firstOf :: "SolutionStep list \<Rightarrow> SolutionStep list list \<Rightarrow> SolutionStep list option" where
  "firstOf path seqs = (case seqs of [] \<Rightarrow> None | s # _ \<Rightarrow> Some (path @ s))"

text \<open>
  All complete solutions for a hand of three, in the order the specification fixes: the
  orderings of the hand as \<open>permutations\<close> yields them, and within an ordering the
  depth-first, table-order enumeration above. The \<open>order\<close> field is the one \<open>dfsAll\<close>
  computes.
\<close>

definition solutionOf :: "Piece list \<Rightarrow> int list \<Rightarrow> int list \<Rightarrow> int list \<Rightarrow> SolutionStep list \<Rightarrow> Solution" where
  "solutionOf raw h order handIndices path =
     \<lparr>steps = path, finalBoard = step_boardAfter (last path),
      mobility = computeMobility raw (step_boardAfter (last path)),
      sol_order = map (\<lambda>i. case js_nth handIndices i of
                               None \<Rightarrow> None
                             | Some j \<Rightarrow> js_nth h j) order\<rparr>"

definition solutionsOfOrder :: "Piece list \<Rightarrow> int \<Rightarrow> int list \<Rightarrow> nat list \<Rightarrow> Solution list" where
  "solutionsOfOrder raw b h orderIndices =
     map (solutionOf raw h (map (\<lambda>i. h ! i) orderIndices) (map int orderIndices))
       (completions raw b (map (\<lambda>i. (h ! i, Some (int i))) orderIndices))"

definition allSolutions :: "Piece list \<Rightarrow> int \<Rightarrow> int list \<Rightarrow> Solution list" where
  "allSolutions raw b h = concat (map (solutionsOfOrder raw b h) (permutations [0, 1, 2]))"

text \<open>Row-major order of two placements: the earlier row, or the same row and the earlier column.\<close>

definition rowMajorBefore :: "Placement \<Rightarrow> Placement \<Rightarrow> bool" where
  "rowMajorBefore p q \<longleftrightarrow> pl_y p < pl_y q \<or> (pl_y p = pl_y q \<and> pl_x p < pl_x q)"

text \<open>
  A small catalog for concrete evaluations: the three pieces of the store's default hand
  \<open>[4, 3, 2]\<close>, which the source describes as 1x1, 2x1 and 3x1.
\<close>

definition demoCatalog :: "Piece list" where
  "demoCatalog =
     [\<lparr>piece_id = 2, piece_w = 3, piece_h = 1, piece_cells = [(0, 0), (1, 0), (2, 0)],
       piece_hash = ''0,0;1,0;2,0''\<rparr>,
      \<lparr>piece_id = 3, piece_w = 2, piece_h = 1, piece_cells = [(0, 0), (1, 0)],
       piece_hash = ''0,0;1,0''\<rparr>,
      \<lparr>piece_id = 4, piece_w = 1, piece_h = 1, piece_cells = [(0, 0)],
       piece_hash = ''0,0''\<rparr>]"

section \<open>Numbers and shifts within their limits\<close>

lemma bitLength_one: "bitLength (Suc 0) = Suc 0"
  by (simp add: bitLength.simps)

lemma js_round_exact: "\<bar>k\<bar> \<le> 2 ^ 53 \<Longrightarrow> js_round k = k"
  by (simp add: js_round_def)

lemma coordToIndex_exact:
  assumes "\<bar>x\<bar> \<le> 2 ^ 52" and "\<bar>y\<bar> \<le> 2 ^ 49"
  shows "coordToIndex x y = y * 8 + x"
proof -
  have fy: "js_finite y" and fx: "js_finite x"
    using assms by (simp_all add: js_finite_def)
  have y8: "\<bar>y * 8\<bar> \<le> 2 ^ 52"
    using assms(2) by (simp add: abs_mult)
  then have m: "js_mul y 8 = y * 8"
    using fy by (simp add: js_mul_def js_finite_def js_round_exact)
  have f8: "js_finite (y * 8)"
    using y8 by (simp add: js_finite_def)
  have "\<bar>y * 8 + x\<bar> \<le> 2 ^ 53"
    using y8 assms(1) by simp
  then show ?thesis
    using m f8 fx by (simp add: coordToIndex_def js_add_def js_round_exact)
qed

lemma coordToIndex_in_bounds: "isInBounds x y \<Longrightarrow> coordToIndex x y = y * 8 + x"
  by (rule coordToIndex_exact) (simp_all add: isInBounds_def)

lemma js_BigInt_exact: "\<bar>v\<bar> \<le> 2 ^ 53 \<Longrightarrow> js_BigInt v = Inr v"
  by (simp add: js_BigInt_def js_finite_def)

lemma bigint_shl_one: "n < maxBigIntBits \<Longrightarrow> bigint_shl 1 n = Inr (js_shl 1 n)"
  by (auto simp: bigint_shl_def js_shl_def bitLength_one)

lemma bigint_shr_eq:
  assumes "n < 0 \<Longrightarrow> a = 0 \<or> int (bitLength (nat \<bar>a\<bar>)) - n \<le> maxBigIntBits"
  shows "bigint_shr a n = Inr (js_shr a n)"
proof (cases "n < 0")
  case True
  with assms show ?thesis
    by (auto simp: bigint_shr_def bigint_shl_def js_shr_def)
next
  case False
  then show ?thesis
    by (simp add: bigint_shr_def bigint_shl_def js_shr_def)
qed

text \<open>
  On the board the checked shift and the plain one agree: \<open>setBit\<close> behind \<open>isInBounds\<close>
  cannot raise.
\<close>

lemma shift_in_bounds:
  assumes "isInBounds x y"
  shows "js_BigInt (coordToIndex x y) = Inr (y * 8 + x)"
    and "bigint_shl 1 (y * 8 + x) = Inr (js_shl 1 (coordToIndex x y))"
proof -
  have idx: "coordToIndex x y = y * 8 + x"
    by (rule coordToIndex_in_bounds [OF assms])
  have "\<bar>y * 8 + x\<bar> \<le> 2 ^ 53"
    using assms by (simp add: isInBounds_def)
  then show "js_BigInt (coordToIndex x y) = Inr (y * 8 + x)"
    by (simp add: idx js_BigInt_exact)
  have "y * 8 + x < maxBigIntBits"
    using assms by (simp add: isInBounds_def maxBigIntBits_def)
  then show "bigint_shl 1 (y * 8 + x) = Inr (js_shl 1 (coordToIndex x y))"
    by (simp add: idx bigint_shl_one)
qed

lemma toggleBit_eq:
  assumes "\<bar>x\<bar> \<le> 2 ^ 52" and "\<bar>y\<bar> \<le> 2 ^ 49" and "y * 8 + x < maxBigIntBits"
  shows "toggleBit b x y = Inr (b XOR js_shl 1 (y * 8 + x))"
proof -
  have "\<bar>y * 8 + x\<bar> \<le> 2 ^ 53"
    using assms(1,2) by (simp add: abs_mult)
  then have "js_BigInt (y * 8 + x) = Inr (y * 8 + x)"
    by (rule js_BigInt_exact)
  then show ?thesis
    by (simp add: toggleBit_def coordToIndex_exact [OF assms(1,2)] bigint_shl_one [OF assms(3)])
qed

section \<open>The bitboard loops return their closed forms\<close>

lemma ROW_MASKS_val: "ROW_MASKS = [255, 65280, 16711680, 4278190080, 1095216660480, 280375465082880, 71776119061217280, 18374686479671623680]"
  by (simp add: ROW_MASKS_def rowMaskInit_def js_shl_def upto.simps)

lemma COL_MASKS_val: "COL_MASKS = [72340172838076673, 144680345676153346, 289360691352306692, 578721382704613384, 1157442765409226768, 2314885530818453536, 4629771061636907072, 9259542123273814144]"
  by (simp add: COL_MASKS_def colMaskInit_def js_shl_def upto.simps)

lemma length_ROW_MASKS: "length ROW_MASKS = 8"
  by (simp add: ROW_MASKS_val)

lemma length_COL_MASKS: "length COL_MASKS = 8"
  by (simp add: COL_MASKS_val)

lemma getFilledRows_loop_eq:
  "0 \<le> y \<Longrightarrow> getFilledRows_loop b y filled =
     Inr (filled @ filter (\<lambda>i. b AND ROW_MASKS ! nat i = ROW_MASKS ! nat i) [y..7])"
proof (induction b y filled rule: getFilledRows_loop.induct)
  case (1 b y filled)
  show ?case
  proof (cases "y < 8")
    case True
    have row: "isRowFilled b y = Inr (b AND ROW_MASKS ! nat y = ROW_MASKS ! nat y)"
      using True "1.prems" by (simp add: isRowFilled_def js_nth_def length_ROW_MASKS)
    have unroll: "[y..7] = y # [y + 1..7]"
      using True by (simp add: upto_rec1)
    have "getFilledRows_loop b (y + 1)
            (if b AND ROW_MASKS ! nat y = ROW_MASKS ! nat y then filled @ [y] else filled) =
          Inr ((if b AND ROW_MASKS ! nat y = ROW_MASKS ! nat y then filled @ [y] else filled) @
               filter (\<lambda>i. b AND ROW_MASKS ! nat i = ROW_MASKS ! nat i) [y + 1..7])"
      using "1.IH" [OF True row] "1.prems" by simp
    then show ?thesis
      using True row unroll by (subst getFilledRows_loop.simps) simp
  next
    case False
    then show ?thesis by (subst getFilledRows_loop.simps) simp
  qed
qed

lemma getFilledCols_loop_eq:
  "0 \<le> x \<Longrightarrow> getFilledCols_loop b x filled =
     Inr (filled @ filter (\<lambda>i. b AND COL_MASKS ! nat i = COL_MASKS ! nat i) [x..7])"
proof (induction b x filled rule: getFilledCols_loop.induct)
  case (1 b x filled)
  show ?case
  proof (cases "x < 8")
    case True
    have col: "isColFilled b x = Inr (b AND COL_MASKS ! nat x = COL_MASKS ! nat x)"
      using True "1.prems" by (simp add: isColFilled_def js_nth_def length_COL_MASKS)
    have unroll: "[x..7] = x # [x + 1..7]"
      using True by (simp add: upto_rec1)
    have "getFilledCols_loop b (x + 1)
            (if b AND COL_MASKS ! nat x = COL_MASKS ! nat x then filled @ [x] else filled) =
          Inr ((if b AND COL_MASKS ! nat x = COL_MASKS ! nat x then filled @ [x] else filled) @
               filter (\<lambda>i. b AND COL_MASKS ! nat i = COL_MASKS ! nat i) [x + 1..7])"
      using "1.IH" [OF True col] "1.prems" by simp
    then show ?thesis
      using True col unroll by (subst getFilledCols_loop.simps) simp
  next
    case False
    then show ?thesis by (subst getFilledCols_loop.simps) simp
  qed
qed

lemma getFilledRows_eq: "getFilledRows b = Inr (rowsFilledIn b)"
  by (simp add: getFilledRows_def rowsFilledIn_def getFilledRows_loop_eq)

lemma getFilledCols_eq: "getFilledCols b = Inr (colsFilledIn b)"
  by (simp add: getFilledCols_def colsFilledIn_def getFilledCols_loop_eq)

lemma orMasks_eq:
  "\<forall>i \<in> set is. 0 \<le> i \<and> i < int (length tbl) \<Longrightarrow>
     orMasks tbl is c = Inr (fold (\<lambda>i c. c OR tbl ! nat i) is c)"
  by (induction "is" arbitrary: c) (simp_all add: js_nth_def)

lemma set_rowsFilledIn: "i \<in> set (rowsFilledIn b) \<Longrightarrow> 0 \<le> i \<and> i < 8"
  by (auto simp: rowsFilledIn_def)

lemma set_colsFilledIn: "i \<in> set (colsFilledIn b) \<Longrightarrow> 0 \<le> i \<and> i < 8"
  by (auto simp: colsFilledIn_def)

lemma clearLines_eq:
  "clearLines b (rowsFilledIn c) (colsFilledIn c) =
     Inr (b AND NOT (clearMaskFor (rowsFilledIn c) (colsFilledIn c)))"
proof -
  have r: "\<forall>i \<in> set (rowsFilledIn c). 0 \<le> i \<and> i < int (length ROW_MASKS)"
    using set_rowsFilledIn by (simp add: length_ROW_MASKS)
  have k: "\<forall>i \<in> set (colsFilledIn c). 0 \<le> i \<and> i < int (length COL_MASKS)"
    using set_colsFilledIn by (simp add: length_COL_MASKS)
  show ?thesis
    by (simp add: clearLines_def orMasks_eq [OF r] orMasks_eq [OF k] clearMaskFor_def)
qed

lemma placePiece_eq: "placePiece b m = Inr (placed b m)"
  by (simp add: placePiece_def placed_def getFilledRows_eq getFilledCols_eq clearLines_eq Let_def)


section \<open>Counting bits\<close>

lemma confined_iff: "(\<forall>n. bit (b::int) n \<longrightarrow> n < N) \<longleftrightarrow> 0 \<le> b \<and> b < 2 ^ N"
proof
  assume h: "\<forall>n. bit b n \<longrightarrow> n < N"
  have "take_bit N b = b"
    by (rule bit_eqI) (use h in \<open>auto simp: bit_take_bit_iff\<close>)
  then have "0 \<le> b" "b < 2 ^ N"
    using take_bit_nonnegative [of N b] take_bit_int_less_exp [of N b] by simp_all
  then show "0 \<le> b \<and> b < 2 ^ N" by simp
next
  assume "0 \<le> b \<and> b < 2 ^ N"
  then have "take_bit N b = b" by (simp add: take_bit_int_eq_self)
  then have "\<And>n. bit b n \<Longrightarrow> n < N"
    by (metis bit_take_bit_iff)
  then show "\<forall>n. bit b n \<longrightarrow> n < N" by blast
qed

lemma finite_bits: "0 \<le> (b::int) \<Longrightarrow> finite {n. bit b n}"
proof -
  assume "0 \<le> b"
  have "nat b < 2 ^ nat b"
    by (rule less_exp)
  then have "int (nat b) < int (2 ^ nat b)"
    by (simp only: of_nat_less_iff)
  with \<open>0 \<le> b\<close> have "b < 2 ^ nat b"
    by simp
  with \<open>0 \<le> b\<close> have "\<forall>n. bit b n \<longrightarrow> n < nat b"
    using confined_iff by blast
  then have "{n. bit b n} \<subseteq> {..<nat b}" by auto
  then show ?thesis using finite_subset by blast
qed

lemma bits_step: "{n. bit (b::int) n} = (if odd b then {0} else {}) \<union> Suc ` {n. bit (b div 2) n}"
proof -
  have "bit b n \<longleftrightarrow> (n = 0 \<and> odd b) \<or> (\<exists>k. n = Suc k \<and> bit (b div 2) k)" for n
    by (cases n) (simp_all add: bit_0 bit_Suc)
  then show ?thesis by (auto simp: image_iff)
qed

lemma popcount_step:
  assumes "0 \<le> (b::int)"
  shows "popcount b = (if odd b then 1 else 0) + popcount (b div 2)"
proof -
  have fin: "finite {n. bit (b div 2) n}"
    using assms by (simp add: finite_bits pos_imp_zdiv_nonneg_iff)
  have "card ((if odd b then {0} else {}) \<union> Suc ` {n. bit (b div 2) n}) =
        card (if odd b then {0::nat} else {}) + card (Suc ` {n. bit (b div 2) n})"
    by (rule card_Un_disjoint) (use fin in auto)
  also have "card (Suc ` {n. bit (b div 2) n}) = card {n. bit (b div 2) n}"
    by (rule card_image) simp
  finally show ?thesis
    unfolding popcount_def by (subst bits_step) simp
qed

lemma countBits_loop_eq:
  "0 \<le> b \<Longrightarrow> countBits_loop b c = Some (c + popcount b)"
proof (induction "nat b" arbitrary: b c rule: less_induct)
  case less
  show ?case
  proof (cases "b = 0")
    case True
    then show ?thesis
      by (subst countBits_loop.simps) (simp add: popcount_def)
  next
    case False
    with less.prems have pos: "0 < b" by simp
    then have smaller: "nat (b div 2) < nat b" "0 \<le> b div 2" by simp_all
    have half: "js_shr b 1 = b div 2"
      by (simp add: js_shr_def drop_bit_eq_div)
    have low: "nat (b AND 1) = (if odd b then 1 else 0)"
      by (simp add: and_one_eq mod_2_eq_odd)
    have "countBits_loop b c = countBits_loop (b div 2) (c + nat (b AND 1))"
      using False half by (subst countBits_loop.simps) simp
    also have "\<dots> = Some (c + nat (b AND 1) + popcount (b div 2))"
      using less.hyps [OF smaller] .
    also have "\<dots> = Some (c + popcount b)"
      using popcount_step [OF less.prems] low by simp
    finally show ?thesis .
  qed
qed

lemma countBits_eq: "0 \<le> b \<Longrightarrow> countBits b = Some (popcount b)"
  by (simp add: countBits_def countBits_loop_eq)

lemma popcount_mono:
  assumes "0 \<le> c" "\<And>n. bit b n \<Longrightarrow> bit c n"
  shows "popcount b \<le> popcount c"
  unfolding popcount_def
  by (rule card_mono) (use assms finite_bits in auto)

section \<open>Placement: cleared cells and the board invariant\<close>


text \<open>
  Claim C5. When the board and the mask have no bit set outside the indices 0 to 63,
  \<open>placePiece\<close> returns a \<open>newBoard\<close> with no bit set outside 0 to 63, and \<open>countBits\<close> of
  it is at most \<open>countBits\<close> of the board with the mask added.
\<close>

theorem placePiece_within_board:
  assumes "\<forall>n. bit b n \<longrightarrow> n < 64" and "\<forall>n. bit m n \<longrightarrow> n < 64"
  shows "\<exists>r k k'. placePiece b m = Inr r \<and> (\<forall>n. bit (newBoard r) n \<longrightarrow> n < 64) \<and>
           countBits (newBoard r) = Some k \<and> countBits (b OR m) = Some k' \<and> k \<le> k'"
proof -
  let ?pb = "b OR m"
  let ?nb = "newBoard (placed b m)"
  from assms have pb: "\<forall>n. bit ?pb n \<longrightarrow> n < 64"
    by (auto simp: bit_or_iff)
  have sub: "bit ?nb n \<Longrightarrow> bit ?pb n" for n
    by (simp add: placed_def Let_def bit_and_iff)
  with pb have nb: "\<forall>n. bit ?nb n \<longrightarrow> n < 64"
    by blast
  have pb0: "0 \<le> ?pb" and nb0: "0 \<le> ?nb"
    using pb nb confined_iff by blast+
  have "popcount ?nb \<le> popcount ?pb"
    by (rule popcount_mono [OF pb0 sub])
  with nb pb0 nb0 show ?thesis
    by (simp add: placePiece_eq countBits_eq)
qed

theorem placePiece_within_board_witness:
  "\<exists>r k k'. placePiece 127 128 = Inr r \<and> (\<forall>n. bit (newBoard r) n \<longrightarrow> n < 64) \<and>
      countBits (newBoard r) = Some k \<and> countBits (127 OR 128) = Some k' \<and> k \<le> k'"
proof -
  have h1: "\<forall>n. bit (127 :: int) n \<longrightarrow> n < 64"
    by (simp add: confined_iff)
  have h2: "\<forall>n. bit (128 :: int) n \<longrightarrow> n < 64"
    by (simp add: confined_iff)
  show ?thesis
    using placePiece_within_board [OF h1 h2] .
qed

section \<open>Piece masks\<close>

lemma setBit_in_bounds:
  "isInBounds x y \<Longrightarrow> setBit m x y = m OR push_bit (nat (y * 8 + x)) 1"
  by (simp add: setBit_def coordToIndex_in_bounds js_shl_def) (simp add: isInBounds_def)

lemma bit_single: "bit (push_bit k (1 :: int)) n \<longleftrightarrow> n = k"
  by (auto simp: bit_exp_iff)

lemma bit_pieceMaskAt_loop:
  "list_all (\<lambda>(dx, dy). isInBounds (px + dx) (py + dy)) cs \<Longrightarrow>
     bit (pieceMaskAt_loop px py cs m0) n \<longleftrightarrow>
       bit m0 n \<or> n \<in> (\<lambda>(dx, dy). nat ((py + dy) * 8 + (px + dx))) ` set cs"
proof (induction cs arbitrary: m0)
  case Nil
  then show ?case by simp
next
  case (Cons c cs)
  obtain dx dy where c: "c = (dx, dy)" by (cases c)
  from Cons.prems c have inb: "isInBounds (px + dx) (py + dy)"
    and rest: "list_all (\<lambda>(dx, dy). isInBounds (px + dx) (py + dy)) cs"
    by simp_all
  show ?case
    using Cons.IH [OF rest] inb c
    by (auto simp: setBit_in_bounds bit_or_iff bit_single simp del: push_bit_of_1)
qed

lemma cells_in_bounds:
  assumes "list_all (\<lambda>(dx, dy). 0 \<le> dx \<and> dx < w \<and> 0 \<le> dy \<and> dy < h) cs"
    and "0 \<le> px" "0 \<le> py" "px + w \<le> 8" "py + h \<le> 8"
  shows "list_all (\<lambda>(dx, dy). isInBounds (px + dx) (py + dy)) cs"
  using assms by (auto simp: list_all_iff isInBounds_def)

lemma idx_unique:
  fixes a b c d :: int
  assumes "a * 8 + c = b * 8 + d" "0 \<le> c" "c < 8" "0 \<le> d" "d < 8"
  shows "a = b \<and> c = d"
proof -
  have "\<not> a < b"
  proof
    assume "a < b"
    then have "a + 1 \<le> b" by simp
    then have "a * 8 + 8 \<le> b * 8" by simp
    with assms show False by simp
  qed
  moreover have "\<not> b < a"
  proof
    assume "b < a"
    then have "b + 1 \<le> a" by simp
    then have "b * 8 + 8 \<le> a * 8" by simp
    with assms show False by simp
  qed
  ultimately have "a = b" by simp
  with assms show ?thesis by simp
qed

lemma cell_index_inj:
  assumes "list_all (\<lambda>(dx, dy). isInBounds (px + dx) (py + dy)) cs"
  shows "inj_on (\<lambda>(dx, dy). nat ((py + dy) * 8 + (px + dx))) (set cs)"
proof (rule inj_onI)
  fix c d
  assume cd: "c \<in> set cs" "d \<in> set cs"
    and eq: "(case c of (dx, dy) \<Rightarrow> nat ((py + dy) * 8 + (px + dx))) =
             (case d of (dx, dy) \<Rightarrow> nat ((py + dy) * 8 + (px + dx)))"
  obtain cx cy ex ey where c: "c = (cx, cy)" and d: "d = (ex, ey)"
    by (cases c, cases d) auto
  from assms cd c d have b: "0 \<le> px + cx" "px + cx < 8" "0 \<le> py + cy" "py + cy < 8"
      "0 \<le> px + ex" "px + ex < 8" "0 \<le> py + ey" "py + ey < 8"
    by (auto simp: list_all_iff isInBounds_def)
  from eq c d b have e: "(py + cy) * 8 + (px + cx) = (py + ey) * 8 + (px + ex)"
    by simp
  have "py + cy = py + ey \<and> px + cx = px + ex"
    by (rule idx_unique [OF e b(1) b(2) b(5) b(6)])
  with c d show "c = d" by simp
qed

lemma pieceMaskAt_in_bounds:
  assumes "0 \<le> px" "0 \<le> py" "px + piece_w p \<le> 8" "py + piece_h p \<le> 8"
  shows "pieceMaskAt p px py = pieceMaskAt_loop px py (piece_cells p) 0"
  using assms by (simp add: pieceMaskAt_def)

lemma pieceMaskAt_popcount:
  assumes dist: "distinct (piece_cells p)"
    and box: "list_all (\<lambda>(dx, dy). 0 \<le> dx \<and> dx < piece_w p \<and> 0 \<le> dy \<and> dy < piece_h p)
                (piece_cells p)"
    and anchor: "0 \<le> px" "0 \<le> py" "px + piece_w p \<le> 8" "py + piece_h p \<le> 8"
  shows "popcount (pieceMaskAt p px py) = length (piece_cells p)"
    and "\<forall>n. bit (pieceMaskAt p px py) n \<longrightarrow> n < 64"
proof -
  let ?idx = "\<lambda>(dx, dy). nat ((py + dy) * 8 + (px + dx))"
  have inb: "list_all (\<lambda>(dx, dy). isInBounds (px + dx) (py + dy)) (piece_cells p)"
    by (rule cells_in_bounds [OF box anchor])
  have bits: "{n. bit (pieceMaskAt p px py) n} = ?idx ` set (piece_cells p)"
    using bit_pieceMaskAt_loop [OF inb, of 0] by (simp add: pieceMaskAt_in_bounds [OF anchor])
  have "card (?idx ` set (piece_cells p)) = card (set (piece_cells p))"
    by (rule card_image [OF cell_index_inj [OF inb]])
  with bits dist show "popcount (pieceMaskAt p px py) = length (piece_cells p)"
    by (simp add: popcount_def distinct_card)
  have "n < 64" if "n \<in> ?idx ` set (piece_cells p)" for n
    using that inb by (auto simp: list_all_iff isInBounds_def)
  with bits show "\<forall>n. bit (pieceMaskAt p px py) n \<longrightarrow> n < 64"
    by blast
qed

text \<open>
  Claim C6. For a well-formed piece and an anchor whose bounding box lies inside the
  board, \<open>pieceMaskAt\<close> returns a mask with as many set bits as the piece has cells, all at
  indices below 64; for any other anchor it returns 0.
\<close>

theorem pieceMaskAt_bits:
  assumes "wellFormedPiece p"
  shows "(0 \<le> x \<and> 0 \<le> y \<and> x + piece_w p \<le> 8 \<and> y + piece_h p \<le> 8 \<longrightarrow>
            countBits (pieceMaskAt p x y) = Some (length (piece_cells p)) \<and>
            (\<forall>n. bit (pieceMaskAt p x y) n \<longrightarrow> n < 64)) \<and>
         (\<not> (0 \<le> x \<and> 0 \<le> y \<and> x + piece_w p \<le> 8 \<and> y + piece_h p \<le> 8) \<longrightarrow>
            pieceMaskAt p x y = 0)"
proof (intro conjI impI)
  assume anchor: "0 \<le> x \<and> 0 \<le> y \<and> x + piece_w p \<le> 8 \<and> y + piece_h p \<le> 8"
  from assms have dist: "distinct (piece_cells p)"
    and box: "list_all (\<lambda>(dx, dy). 0 \<le> dx \<and> dx < piece_w p \<and> 0 \<le> dy \<and> dy < piece_h p)
                (piece_cells p)"
    by (simp_all add: wellFormedPiece_def)
  from anchor have a: "0 \<le> x" "0 \<le> y" "x + piece_w p \<le> 8" "y + piece_h p \<le> 8"
    by simp_all
  show confined: "\<forall>n. bit (pieceMaskAt p x y) n \<longrightarrow> n < 64"
    by (rule pieceMaskAt_popcount(2) [OF dist box a])
  then have "0 \<le> pieceMaskAt p x y"
    using confined_iff by blast
  then show "countBits (pieceMaskAt p x y) = Some (length (piece_cells p))"
    by (simp add: countBits_eq pieceMaskAt_popcount(1) [OF dist box a])
next
  assume "\<not> (0 \<le> x \<and> 0 \<le> y \<and> x + piece_w p \<le> 8 \<and> y + piece_h p \<le> 8)"
  then show "pieceMaskAt p x y = 0"
    by (auto simp: pieceMaskAt_def)
qed

theorem pieceMaskAt_bits_witness:
  "countBits (pieceMaskAt \<lparr>piece_id = 7, piece_w = 2, piece_h = 2,
       piece_cells = [(0, 0), (1, 0), (0, 1)], piece_hash = ''0,0;0,1;1,0''\<rparr> 6 6) = Some 3 \<and>
   pieceMaskAt \<lparr>piece_id = 7, piece_w = 2, piece_h = 2,
       piece_cells = [(0, 0), (1, 0), (0, 1)], piece_hash = ''0,0;0,1;1,0''\<rparr> 7 6 = 0"
proof -
  let ?p = "\<lparr>piece_id = 7, piece_w = 2, piece_h = 2,
       piece_cells = [(0, 0), (1, 0), (0, 1)], piece_hash = ''0,0;0,1;1,0''\<rparr>"
  have wf: "wellFormedPiece ?p"
    by (simp add: wellFormedPiece_def)
  show ?thesis
    using pieceMaskAt_bits [OF wf, of 6 6] pieceMaskAt_bits [OF wf, of 7 6] by simp
qed

section \<open>State tree\<close>

lemma PIECES_demoCatalog:
  "PIECES demoCatalog =
     [(2, \<lparr>piece_id = 2, piece_w = 3, piece_h = 1, piece_cells = [(0, 0), (1, 0), (2, 0)],
            piece_hash = ''0,0;1,0;2,0''\<rparr>),
      (3, \<lparr>piece_id = 3, piece_w = 2, piece_h = 1, piece_cells = [(0, 0), (1, 0)],
            piece_hash = ''0,0;1,0''\<rparr>),
      (4, \<lparr>piece_id = 4, piece_w = 1, piece_h = 1, piece_cells = [(0, 0)],
            piece_hash = ''0,0''\<rparr>)]"
  by (simp add: PIECES_def demoCatalog_def)

text \<open>
  Claim C1. \<open>applyPlaceMove\<close> checks, on the current node, that \<open>handIndex\<close> is inside the
  hand, that the slot is not used, that the slot holds \<open>pieceId\<close>, that the piece's mask at
  (x, y) is not 0 and that the mask does not overlap the board. When one of the checks
  fails the result is an error of the invalid-move kind. The result then carries no tree:
  the source copies the node map only after the checks, so nothing of the argument tree
  has changed.
\<close>

theorem applyPlaceMove_invalid:
  assumes "getCurrentNode t = Inr cur"
    and "handIndex < 0 \<or> handIndex \<ge> int (length (hand cur)) \<or>
         js_nth (handUsed cur) handIndex = Some True \<or>
         js_nth (hand cur) handIndex \<noteq> Some pieceId \<or>
         (\<forall>piece. map_of (PIECES raw) pieceId = Some piece \<longrightarrow>
            pieceMaskAt piece x y = 0 \<or> board cur AND pieceMaskAt piece x y \<noteq> 0)"
  shows "\<exists>e. applyPlaceMove raw newNodeId now t pieceId handIndex x y = Inl e \<and>
           e \<in> {InvalidHandIndex, PieceAlreadyUsed, PieceIdMismatch, UnknownPieceId,
                 CannotPlacePiece, Overlap}"
  using assms
  by (auto simp: applyPlaceMove_def Let_def split: option.splits)

theorem applyPlaceMove_invalid_witness:
  "\<exists>e. applyPlaceMove demoCatalog ''n1'' 1 (createInitialTree ''n0'' 0 1 [4, 3, 2]) 4 0 0 0 = Inl e \<and>
       e \<in> {InvalidHandIndex, PieceAlreadyUsed, PieceIdMismatch, UnknownPieceId,
             CannotPlacePiece, Overlap}"
proof -
  let ?t = "createInitialTree ''n0'' 0 1 [4, 3, 2]"
  let ?cur = "\<lparr>node_id = ''n0'', parentId = None, childrenIds = [], board = 1,
               hand = [4, 3, 2], handUsed = [False, False, False], lastMove = None,
               createdAt = 0, node_note = None\<rparr>"
  have cur: "getCurrentNode ?t = Inr ?cur"
    by (simp add: getCurrentNode_def createInitialTree_def)
  have overlap: "\<forall>piece. map_of (PIECES demoCatalog) 4 = Some piece \<longrightarrow>
            pieceMaskAt piece 0 0 = 0 \<or> board ?cur AND pieceMaskAt piece 0 0 \<noteq> 0"
    by (simp add: PIECES_demoCatalog pieceMaskAt_def isInBounds_def setBit_def
        coordToIndex_exact js_shl_def)
  show ?thesis
    by (rule applyPlaceMove_invalid [OF cur]) (use overlap in blast)
qed

lemma applyPlaceMove_accepts:
  assumes "getCurrentNode t = Inr cur"
    and "0 \<le> handIndex" "handIndex < int (length (hand cur))"
    and "js_nth (handUsed cur) handIndex \<noteq> Some True"
    and "js_nth (hand cur) handIndex = Some pieceId"
    and "map_of (PIECES raw) pieceId = Some piece"
    and "pieceMaskAt piece x y \<noteq> 0" "board cur AND pieceMaskAt piece x y = 0"
  shows "applyPlaceMove raw newNodeId now t pieceId handIndex x y =
     Inr (t\<lparr>nodes := (nodes t)
              (node_id cur \<mapsto> cur\<lparr>childrenIds := childrenIds cur @ [newNodeId]\<rparr>,
               newNodeId \<mapsto>
                 \<lparr>node_id = newNodeId, parentId = Some (node_id cur), childrenIds = [],
                  board = newBoard (placed (board cur) (pieceMaskAt piece x y)),
                  hand = hand cur, handUsed = js_set (handUsed cur) handIndex True,
                  lastMove = Some (PLACE pieceId handIndex x y
                     (clearedRows (placed (board cur) (pieceMaskAt piece x y)))
                     (clearedCols (placed (board cur) (pieceMaskAt piece x y)))),
                  createdAt = now, node_note = None\<rparr>),
            currentNodeId := newNodeId\<rparr>)"
  using assms by (simp add: applyPlaceMove_def Let_def placePiece_eq)

lemma applyPlaceMove_shape:
  assumes "applyPlaceMove raw newNodeId now t pieceId handIndex x y = Inr t'"
  shows "\<exists>cur new. getCurrentNode t = Inr cur \<and> parentId new = Some (node_id cur) \<and>
           childrenIds new = [] \<and>
           t' = t\<lparr>nodes := (nodes t)
                    (node_id cur \<mapsto> cur\<lparr>childrenIds := childrenIds cur @ [newNodeId]\<rparr>,
                     newNodeId \<mapsto> new),
                  currentNodeId := newNodeId\<rparr>"
proof -
  from assms obtain cur where cur: "getCurrentNode t = Inr cur"
    by (auto simp: applyPlaceMove_def split: sum.splits)
  from assms cur obtain piece where checks:
      "0 \<le> handIndex" "handIndex < int (length (hand cur))"
      "js_nth (handUsed cur) handIndex \<noteq> Some True"
      "js_nth (hand cur) handIndex = Some pieceId"
      "map_of (PIECES raw) pieceId = Some piece"
      "pieceMaskAt piece x y \<noteq> 0" "board cur AND pieceMaskAt piece x y = 0"
    by (auto simp: applyPlaceMove_def Let_def split: if_splits option.splits)
  let ?new = "\<lparr>node_id = newNodeId, parentId = Some (node_id cur), childrenIds = [],
                  board = newBoard (placed (board cur) (pieceMaskAt piece x y)),
                  hand = hand cur, handUsed = js_set (handUsed cur) handIndex True,
                  lastMove = Some (PLACE pieceId handIndex x y
                     (clearedRows (placed (board cur) (pieceMaskAt piece x y)))
                     (clearedCols (placed (board cur) (pieceMaskAt piece x y)))),
                  createdAt = now, node_note = None\<rparr>"
  from applyPlaceMove_accepts [OF cur checks, of newNodeId now] assms
  have "t' = t\<lparr>nodes := (nodes t)
                    (node_id cur \<mapsto> cur\<lparr>childrenIds := childrenIds cur @ [newNodeId]\<rparr>,
                     newNodeId \<mapsto> ?new),
                  currentNodeId := newNodeId\<rparr>"
    by simp
  moreover have "parentId ?new = Some (node_id cur)" "childrenIds ?new = []"
    by simp_all
  ultimately show ?thesis
    using cur by blast
qed

lemma undo_redo_last_child:
  assumes "nodes t (currentNodeId t) = Some c" "parentId c = Some p" "nodes t p = Some pn"
    and "childrenIds pn \<noteq> []" "last (childrenIds pn) = currentNodeId t"
  shows "undo t = Inr (t\<lparr>currentNodeId := p\<rparr>)" and "redo (t\<lparr>currentNodeId := p\<rparr>) = Inr t"
proof -
  show "undo t = Inr (t\<lparr>currentNodeId := p\<rparr>)"
    using assms by (simp add: undo_def getCurrentNode_def checkout_def)
  have "childrenIds pn ! (length (childrenIds pn) - 1) = currentNodeId t"
    using assms by (simp add: last_conv_nth)
  then show "redo (t\<lparr>currentNodeId := p\<rparr>) = Inr t"
    using assms by (simp add: redo_def getCurrentNode_def checkout_def)
qed

text \<open>
  Claim C7. After an accepted place move the current node is the new node, the last child
  of the node that was current. \<open>undo\<close> moves to that parent, and \<open>redo\<close> from there gives
  back the very tree that the move returned: the same current node id, and with it the
  same board, hand and used flags.
\<close>

theorem undo_redo_after_place:
  assumes "applyPlaceMove raw newNodeId now t pieceId handIndex x y = Inr t'"
  shows "\<exists>cur t1. getCurrentNode t = Inr cur \<and> undo t' = Inr t1 \<and>
           currentNodeId t1 = node_id cur \<and> redo t1 = Inr t' \<and> currentNodeId t' = newNodeId"
proof -
  from applyPlaceMove_shape [OF assms] obtain cur new where
    cur: "getCurrentNode t = Inr cur" and new: "parentId new = Some (node_id cur)"
      "childrenIds new = []" and
    t': "t' = t\<lparr>nodes := (nodes t)
                    (node_id cur \<mapsto> cur\<lparr>childrenIds := childrenIds cur @ [newNodeId]\<rparr>,
                     newNodeId \<mapsto> new),
                  currentNodeId := newNodeId\<rparr>"
    by blast
  show ?thesis
  proof (cases "newNodeId = node_id cur")
    case True
    from True t' new have u: "undo t' = Inr t'"
      by (simp add: undo_def getCurrentNode_def checkout_def)
    from True t' new have r: "redo t' = Inr t'"
      by (simp add: redo_def getCurrentNode_def)
    from True t' cur u r show ?thesis by simp
  next
    case False
    let ?par = "cur\<lparr>childrenIds := childrenIds cur @ [newNodeId]\<rparr>"
    have a: "nodes t' (currentNodeId t') = Some new" using t' by simp
    have b: "nodes t' (node_id cur) = Some ?par" using t' False by simp
    have c: "childrenIds ?par \<noteq> []" "last (childrenIds ?par) = currentNodeId t'"
      using t' by simp_all
    have "undo t' = Inr (t'\<lparr>currentNodeId := node_id cur\<rparr>)"
      by (rule undo_redo_last_child(1) [OF a new(1) b c])
    moreover have "redo (t'\<lparr>currentNodeId := node_id cur\<rparr>) = Inr t'"
      by (rule undo_redo_last_child(2) [OF a new(1) b c])
    ultimately show ?thesis using cur t' by simp
  qed
qed

theorem undo_redo_after_place_witness:
  "\<exists>t' cur t1.
     applyPlaceMove demoCatalog ''n1'' 1 (createInitialTree ''n0'' 0 0 [4, 3, 2]) 4 0 0 0 = Inr t' \<and>
     getCurrentNode (createInitialTree ''n0'' 0 0 [4, 3, 2]) = Inr cur \<and> undo t' = Inr t1 \<and>
     currentNodeId t1 = node_id cur \<and> redo t1 = Inr t' \<and> currentNodeId t' = ''n1''"
proof -
  let ?t = "createInitialTree ''n0'' 0 0 [4, 3, 2]"
  let ?cur = "\<lparr>node_id = ''n0'', parentId = None, childrenIds = [], board = 0,
               hand = [4, 3, 2], handUsed = [False, False, False], lastMove = None,
               createdAt = 0, node_note = None\<rparr>"
  let ?piece = "\<lparr>piece_id = 4, piece_w = 1, piece_h = 1, piece_cells = [(0, 0)],
                 piece_hash = ''0,0''\<rparr>"
  have cur: "getCurrentNode ?t = Inr ?cur"
    by (simp add: getCurrentNode_def createInitialTree_def)
  have piece: "map_of (PIECES demoCatalog) 4 = Some ?piece"
    by (simp add: PIECES_demoCatalog)
  have msk: "pieceMaskAt ?piece 0 0 = 1"
    by (simp add: pieceMaskAt_def isInBounds_def setBit_def coordToIndex_exact js_shl_def)
  obtain t' where ok: "applyPlaceMove demoCatalog ''n1'' 1 ?t 4 0 0 0 = Inr t'"
    using applyPlaceMove_accepts [OF cur _ _ _ _ piece, of 0 0 0 "''n1''" 1]
    by (simp add: js_nth_def msk)
  from undo_redo_after_place [OF ok] ok show ?thesis by blast
qed

lemma getCurrentNode_initial:
  "getCurrentNode (createInitialTree rootId now b h) =
     Inr \<lparr>node_id = rootId, parentId = None, childrenIds = [], board = b, hand = h,
          handUsed = map (\<lambda>_. False) h, lastMove = None, createdAt = now, node_note = None\<rparr>"
  by (simp add: getCurrentNode_def createInitialTree_def)

lemma applyEditCellMove_eq:
  assumes "getCurrentNode t = Inr cur"
    and "\<bar>x\<bar> \<le> 2 ^ 52" and "\<bar>y\<bar> \<le> 2 ^ 49" and "y * 8 + x < maxBigIntBits"
    and "y * 8 + x < 0 \<Longrightarrow>
           board cur = 0 \<or> int (bitLength (nat \<bar>board cur\<bar>)) - (y * 8 + x) \<le> maxBigIntBits"
  shows "applyEditCellMove newNodeId now t x y =
     Inr (t\<lparr>nodes := (nodes t)
              (node_id cur \<mapsto> cur\<lparr>childrenIds := childrenIds cur @ [newNodeId]\<rparr>,
               newNodeId \<mapsto>
                 \<lparr>node_id = newNodeId, parentId = Some (node_id cur), childrenIds = [],
                  board = board cur XOR js_shl 1 (y * 8 + x),
                  hand = hand cur, handUsed = handUsed cur,
                  lastMove = Some (EDIT_CELL x y (js_shr (board cur) (y * 8 + x) AND 1 = 1)),
                  createdAt = now, node_note = None\<rparr>),
            currentNodeId := newNodeId\<rparr>)"
proof -
  have idx: "js_add (js_mul y 8) x = y * 8 + x"
    using coordToIndex_exact [OF assms(2,3)] by (simp add: coordToIndex_def)
  have "\<bar>y * 8 + x\<bar> \<le> 2 ^ 53"
    using assms(2,3) by (simp add: abs_mult)
  then have big: "js_BigInt (y * 8 + x) = Inr (y * 8 + x)"
    by (rule js_BigInt_exact)
  have shr: "bigint_shr (board cur) (y * 8 + x) = Inr (js_shr (board cur) (y * 8 + x))"
    by (rule bigint_shr_eq) (rule assms(5))
  have tog: "toggleBit (board cur) x y = Inr (board cur XOR js_shl 1 (y * 8 + x))"
    by (rule toggleBit_eq [OF assms(2,3,4)])
  show ?thesis
    by (simp add: applyEditCellMove_def assms(1) idx big shr tog Let_def)
qed

text \<open>
  Claim C9, as stated, fails: \<open>applyEditCellMove\<close> does not succeed for every pair of
  integers. With \<open>x = 0\<close> and \<open>y = 2 ^ 27\<close> the index is \<open>2 ^ 30\<close>; \<open>1n << BigInt(idx)\<close> in
  \<open>toggleBit\<close> would have more bits than the engine allows and raises \<open>RangeError\<close>, and
  no node is created.
\<close>

theorem applyEditCellMove_raises_counterexample:
  "applyEditCellMove ''n1'' 1 (createInitialTree ''n0'' 0 0 [4, 3, 2]) 0 (2 ^ 27) = Inl RangeError"
  by (simp add: applyEditCellMove_def getCurrentNode_initial js_add_def js_mul_def js_finite_def
      js_round_def js_BigInt_def bigint_shr_def bigint_shl_def toggleBit_def coordToIndex_def
      maxBigIntBits_def bitLength_one)

text \<open>
  Claim C9, amended. \<open>applyEditCellMove\<close> checks no coordinate against the board. Let the
  current node exist and let \<open>x\<close> and \<open>y\<close> be integers with \<open>\<bar>x\<bar> \<le> 2 ^ 52\<close> and
  \<open>\<bar>y\<bar> \<le> 2 ^ 49\<close>, so that \<open>y * 8 + x\<close> is computed exactly, whose index \<open>y * 8 + x\<close> is
  below the size limit of a \<open>bigint\<close>; when the index is negative, let the board of the
  current node be \<open>0n\<close> or stay within the limit when shifted left by the negated index.
  Then, in range or not, the function returns a tree with one more node, \<open>newNodeId\<close>,
  appended to the children of the node that was current and made current; the new board
  is the old one \<open>XOR\<close> \<open>1 << (y * 8 + x)\<close>. With \<open>x = 0\<close> and \<open>y = 8\<close> on the empty board the
  new board has bit 64 set.
\<close>

theorem applyEditCellMove_unchecked_in_limits:
  "(getCurrentNode t = Inr cur \<and> \<bar>x\<bar> \<le> 2 ^ 52 \<and> \<bar>y\<bar> \<le> 2 ^ 49 \<and>
    y * 8 + x < maxBigIntBits \<and>
    (y * 8 + x < 0 \<longrightarrow>
       board cur = 0 \<or> int (bitLength (nat \<bar>board cur\<bar>)) - (y * 8 + x) \<le> maxBigIntBits) \<longrightarrow>
      (\<exists>t' new. applyEditCellMove newNodeId now t x y = Inr t' \<and>
         nodes t' = (nodes t)
            (node_id cur \<mapsto> cur\<lparr>childrenIds := childrenIds cur @ [newNodeId]\<rparr>,
             newNodeId \<mapsto> new) \<and>
         dom (nodes t') = insert newNodeId (insert (node_id cur) (dom (nodes t))) \<and>
         currentNodeId t' = newNodeId \<and> rootNodeId t' = rootNodeId t \<and>
         parentId new = Some (node_id cur) \<and> childrenIds new = [] \<and>
         board new = board cur XOR js_shl 1 (y * 8 + x))) \<and>
   (\<exists>t' new. applyEditCellMove ''n1'' 1 (createInitialTree ''n0'' 0 0 [4, 3, 2]) 0 8 = Inr t' \<and>
      nodes t' ''n1'' = Some new \<and> board new = 2 ^ 64 \<and> bit (board new) 64)"
proof (intro conjI impI)
  assume hyp: "getCurrentNode t = Inr cur \<and> \<bar>x\<bar> \<le> 2 ^ 52 \<and> \<bar>y\<bar> \<le> 2 ^ 49 \<and>
    y * 8 + x < maxBigIntBits \<and>
    (y * 8 + x < 0 \<longrightarrow>
       board cur = 0 \<or> int (bitLength (nat \<bar>board cur\<bar>)) - (y * 8 + x) \<le> maxBigIntBits)"
  let ?new = "\<lparr>node_id = newNodeId, parentId = Some (node_id cur), childrenIds = [],
                  board = board cur XOR js_shl 1 (y * 8 + x),
                  hand = hand cur, handUsed = handUsed cur,
                  lastMove = Some (EDIT_CELL x y (js_shr (board cur) (y * 8 + x) AND 1 = 1)),
                  createdAt = now, node_note = None\<rparr>"
  let ?t' = "t\<lparr>nodes := (nodes t)
              (node_id cur \<mapsto> cur\<lparr>childrenIds := childrenIds cur @ [newNodeId]\<rparr>,
               newNodeId \<mapsto> ?new),
            currentNodeId := newNodeId\<rparr>"
  have eq: "applyEditCellMove newNodeId now t x y = Inr ?t'"
    by (rule applyEditCellMove_eq) (use hyp in simp_all)
  show "\<exists>t' new. applyEditCellMove newNodeId now t x y = Inr t' \<and>
         nodes t' = (nodes t)
            (node_id cur \<mapsto> cur\<lparr>childrenIds := childrenIds cur @ [newNodeId]\<rparr>,
             newNodeId \<mapsto> new) \<and>
         dom (nodes t') = insert newNodeId (insert (node_id cur) (dom (nodes t))) \<and>
         currentNodeId t' = newNodeId \<and> rootNodeId t' = rootNodeId t \<and>
         parentId new = Some (node_id cur) \<and> childrenIds new = [] \<and>
         board new = board cur XOR js_shl 1 (y * 8 + x)"
    by (rule exI [of _ ?t'], rule exI [of _ ?new]) (simp add: eq)
next
  let ?new = "\<lparr>node_id = ''n1'', parentId = Some ''n0'', childrenIds = [],
                  board = 2 ^ 64, hand = [4, 3, 2], handUsed = [False, False, False],
                  lastMove = Some (EDIT_CELL 0 8 False),
                  createdAt = 1, node_note = None\<rparr>"
  have "applyEditCellMove ''n1'' 1 (createInitialTree ''n0'' 0 0 [4, 3, 2]) 0 8 =
          Inr ((createInitialTree ''n0'' 0 0 [4, 3, 2])
                 \<lparr>nodes := (nodes (createInitialTree ''n0'' 0 0 [4, 3, 2]))
                    (''n0'' \<mapsto> \<lparr>node_id = ''n0'', parentId = None, childrenIds = [''n1''],
                        board = 0, hand = [4, 3, 2], handUsed = [False, False, False],
                        lastMove = None, createdAt = 0, node_note = None\<rparr>,
                     ''n1'' \<mapsto> ?new),
                  currentNodeId := ''n1''\<rparr>)"
    by (subst applyEditCellMove_eq [OF getCurrentNode_initial])
      (simp_all add: js_shl_def js_shr_def maxBigIntBits_def)
  then have "\<exists>t'. applyEditCellMove ''n1'' 1 (createInitialTree ''n0'' 0 0 [4, 3, 2]) 0 8 = Inr t' \<and>
      nodes t' ''n1'' = Some ?new"
    by simp
  moreover have "board ?new = 2 ^ 64 \<and> bit (board ?new) 64"
    by (simp add: bit_exp_iff)
  ultimately show "\<exists>t' new. applyEditCellMove ''n1'' 1 (createInitialTree ''n0'' 0 0 [4, 3, 2]) 0 8 = Inr t' \<and>
      nodes t' ''n1'' = Some new \<and> board new = 2 ^ 64 \<and> bit (board new) 64"
    by blast
qed

theorem applyEditCellMove_unchecked_in_limits_witness:
  "\<exists>t' new. applyEditCellMove ''n1'' 1 (createInitialTree ''n0'' 0 0 [4, 3, 2]) 9 (- 3) = Inr t' \<and>
     currentNodeId t' = ''n1'' \<and> nodes t' ''n1'' = Some new \<and> parentId new = Some ''n0'' \<and>
     board new = 0"
proof -
  let ?t = "createInitialTree ''n0'' 0 0 [4, 3, 2]"
  let ?cur = "\<lparr>node_id = ''n0'', parentId = None, childrenIds = [], board = 0,
               hand = [4, 3, 2], handUsed = map (\<lambda>_. False) [4, 3, 2 :: int], lastMove = None,
               createdAt = 0, node_note = None\<rparr>"
  have hyp: "getCurrentNode ?t = Inr ?cur \<and> \<bar>9 :: int\<bar> \<le> 2 ^ 52 \<and> \<bar>- 3 :: int\<bar> \<le> 2 ^ 49 \<and>
    - 3 * 8 + 9 < maxBigIntBits \<and>
    (- 3 * 8 + (9 :: int) < 0 \<longrightarrow>
       board ?cur = 0 \<or>
       int (bitLength (nat \<bar>board ?cur\<bar>)) - (- 3 * 8 + 9) \<le> maxBigIntBits)"
    by (simp add: getCurrentNode_initial maxBigIntBits_def)
  from applyEditCellMove_unchecked_in_limits
         [of ?t ?cur 9 "- 3" "''n1''" 1, THEN conjunct1, THEN mp, OF hyp]
  obtain t' new where "applyEditCellMove ''n1'' 1 ?t 9 (- 3) = Inr t'"
    "nodes t' = (nodes ?t)(node_id ?cur \<mapsto> ?cur\<lparr>childrenIds := childrenIds ?cur @ [''n1'']\<rparr>,
             ''n1'' \<mapsto> new)"
    "currentNodeId t' = ''n1''" "parentId new = Some (node_id ?cur)"
    "board new = board ?cur XOR js_shl 1 (- 3 * 8 + 9)"
    by (elim exE conjE) (rule that; assumption)
  then show ?thesis
    by (simp add: js_shl_def)
qed

section \<open>Deleting a branch\<close>

lemma collectDescendants_Nil: "collectDescendants ns [] td = Some td"
  by (subst collectDescendants.simps) simp

lemma collectDescendants_Cons:
  "collectDescendants ns (i # rest) td =
     collectDescendants ns (rest @ (case ns i of None \<Rightarrow> [] | Some node \<Rightarrow> childrenIds node))
       (if i \<in> set td then td else td @ [i])"
  by (subst collectDescendants.simps) (simp add: Let_def split: option.splits)

lemma deleteBranch_guard:
  "nodeId = rootNodeId t \<or> nodeId = currentNodeId t \<Longrightarrow>
     deleteBranch t nodeId = Some (Inl CannotDeleteRoot) \<or>
     deleteBranch t nodeId = Some (Inl CannotDeleteCurrent)"
  by (auto simp: deleteBranch_def)

text \<open>
  Claim C8. \<open>deleteBranch\<close> refuses the root id and the current id (lemma
  \<open>deleteBranch_guard\<close>), but the claim's consequence fails: asked to delete a node above
  the current one, it removes the current node with the rest of the branch and leaves
  \<open>currentNodeId\<close> pointing at no node. Here the tree is the root \<open>n0\<close>, its child \<open>n1\<close> and
  the child \<open>n2\<close> of \<open>n1\<close>, built with two edits; \<open>n2\<close> is current and \<open>n1\<close> is deleted.
\<close>

theorem deleteBranch_removes_current:
  "\<exists>t1 t2 t3.
     applyEditCellMove ''n1'' 1 (createInitialTree ''n0'' 0 0 [4, 3, 2]) 0 0 = Inr t1 \<and>
     applyEditCellMove ''n2'' 2 t1 1 0 = Inr t2 \<and>
     currentNodeId t2 = ''n2'' \<and> rootNodeId t2 = ''n0'' \<and> nodes t2 ''n2'' \<noteq> None \<and>
     deleteBranch t2 ''n1'' = Some (Inr t3) \<and>
     currentNodeId t3 = ''n2'' \<and> nodes t3 ''n2'' = None \<and>
     getCurrentNode t3 = Inl CurrentNodeNotFound"
proof -
  let ?c0 = "\<lparr>node_id = ''n0'', parentId = None, childrenIds = [], board = 0,
              hand = [4, 3, 2], handUsed = [False, False, False], lastMove = None,
              createdAt = 0, node_note = None\<rparr>"
  let ?c1 = "\<lparr>node_id = ''n1'', parentId = Some ''n0'', childrenIds = [], board = 1,
              hand = [4, 3, 2], handUsed = [False, False, False],
              lastMove = Some (EDIT_CELL 0 0 False), createdAt = 1, node_note = None\<rparr>"
  let ?c2 = "\<lparr>node_id = ''n2'', parentId = Some ''n1'', childrenIds = [], board = 3,
              hand = [4, 3, 2], handUsed = [False, False, False],
              lastMove = Some (EDIT_CELL 1 0 False), createdAt = 2, node_note = None\<rparr>"
  let ?t1 = "\<lparr>nodes = [''n0'' \<mapsto> ?c0\<lparr>childrenIds := [''n1'']\<rparr>, ''n1'' \<mapsto> ?c1],
              currentNodeId = ''n1'', rootNodeId = ''n0''\<rparr>"
  let ?t2 = "\<lparr>nodes = [''n0'' \<mapsto> ?c0\<lparr>childrenIds := [''n1'']\<rparr>,
                        ''n1'' \<mapsto> ?c1\<lparr>childrenIds := [''n2'']\<rparr>, ''n2'' \<mapsto> ?c2],
              currentNodeId = ''n2'', rootNodeId = ''n0''\<rparr>"
  let ?t3 = "\<lparr>nodes = [''n0'' \<mapsto> ?c0\<lparr>childrenIds := []\<rparr>],
              currentNodeId = ''n2'', rootNodeId = ''n0''\<rparr>"
  have t1: "applyEditCellMove ''n1'' 1 (createInitialTree ''n0'' 0 0 [4, 3, 2]) 0 0 = Inr ?t1"
    by (subst applyEditCellMove_eq [OF getCurrentNode_initial])
      (simp_all add: js_shl_def js_shr_def createInitialTree_def maxBigIntBits_def)
  have cur1: "getCurrentNode ?t1 = Inr ?c1"
    by (simp add: getCurrentNode_def)
  have t2: "applyEditCellMove ''n2'' 2 ?t1 1 0 = Inr ?t2"
    by (subst applyEditCellMove_eq [OF cur1])
      (auto simp: js_shl_def js_shr_def fun_eq_iff maxBigIntBits_def)
  have cd: "collectDescendants (nodes ?t2) [''n1''] [] = Some [''n1'', ''n2'']"
    by (simp add: collectDescendants_Cons collectDescendants_Nil)
  have t3: "deleteBranch ?t2 ''n1'' = Some (Inr ?t3)"
    unfolding deleteBranch_def cd
    by (auto simp: Let_def fun_eq_iff)
  have "currentNodeId ?t2 = ''n2'' \<and> rootNodeId ?t2 = ''n0'' \<and> nodes ?t2 ''n2'' \<noteq> None \<and>
        currentNodeId ?t3 = ''n2'' \<and> nodes ?t3 ''n2'' = None \<and>
        getCurrentNode ?t3 = Inl CurrentNodeNotFound"
    by (simp add: getCurrentNode_def)
  with t1 t2 t3 show ?thesis
    by (intro exI [of _ ?t1] exI [of _ ?t2] exI [of _ ?t3]) (simp only: simp_thms)
qed

section \<open>The placement table\<close>

lemma canPlace_iff:
  "canPlace b piece x y \<longleftrightarrow> pieceMaskAt piece x y \<noteq> 0 \<and> b AND pieceMaskAt piece x y = 0"
  by (auto simp: canPlace_def Let_def pieceMaskAt_def)

lemma pieceMaskAt_nonzero_anchor:
  "pieceMaskAt piece x y \<noteq> 0 \<Longrightarrow>
     0 \<le> x \<and> x \<le> 8 - piece_w piece \<and> 0 \<le> y \<and> y \<le> 8 - piece_h piece"
  by (auto simp: pieceMaskAt_def split: if_splits)

lemma set_placementsOf_anchors:
  "p \<in> set (placementsOf piece) \<longleftrightarrow>
     (\<exists>py \<in> {0..8 - piece_h piece}. \<exists>px \<in> {0..8 - piece_w piece}.
        pieceMaskAt piece px py \<noteq> 0 \<and>
        p = \<lparr>pl_x = px, pl_y = py, pl_mask = pieceMaskAt piece px py\<rparr>)"
  by (auto simp: placementsOf_def Let_def split: if_splits)

lemma set_placementsOf:
  "p \<in> set (placementsOf piece) \<longleftrightarrow>
     pl_mask p = pieceMaskAt piece (pl_x p) (pl_y p) \<and> pl_mask p \<noteq> 0"
proof
  assume "p \<in> set (placementsOf piece)"
  then show "pl_mask p = pieceMaskAt piece (pl_x p) (pl_y p) \<and> pl_mask p \<noteq> 0"
    by (auto simp: set_placementsOf_anchors)
next
  assume h: "pl_mask p = pieceMaskAt piece (pl_x p) (pl_y p) \<and> pl_mask p \<noteq> 0"
  then have a: "pl_y p \<in> {0..8 - piece_h piece}" "pl_x p \<in> {0..8 - piece_w piece}"
    using pieceMaskAt_nonzero_anchor [of piece "pl_x p" "pl_y p"] by simp_all
  have "pieceMaskAt piece (pl_x p) (pl_y p) \<noteq> 0 \<and>
        p = \<lparr>pl_x = pl_x p, pl_y = pl_y p, pl_mask = pieceMaskAt piece (pl_x p) (pl_y p)\<rparr>"
    using h by simp
  with a show "p \<in> set (placementsOf piece)"
    unfolding set_placementsOf_anchors by blast
qed

lemma set_update_subset: "set (AList.update k v al) \<subseteq> insert (k, v) (set al)"
  by (induction al) auto

lemma catalog_fold_inv:
  assumes "distinct (map fst al)" "\<forall>(k, p) \<in> set al. piece_id p = k"
  shows "distinct (map fst (fold (\<lambda>p m. AList.update (piece_id p) p m) raw al)) \<and>
         (\<forall>(k, p) \<in> set (fold (\<lambda>p m. AList.update (piece_id p) p m) raw al). piece_id p = k)"
  using assms
proof (induction raw arbitrary: al)
  case Nil
  then show ?case by simp
next
  case (Cons q raw)
  have d: "distinct (map fst (AList.update (piece_id q) q al))"
    using Cons.prems(1) by (rule distinct_update)
  have k: "\<forall>(k, p) \<in> set (AList.update (piece_id q) q al). piece_id p = k"
    using Cons.prems(2) set_update_subset [of "piece_id q" q al] by auto
  show ?case
    using Cons.IH [OF d k] by simp
qed

lemma PIECES_inv:
  "distinct (map fst (PIECES raw))" "\<forall>(k, p) \<in> set (PIECES raw). piece_id p = k"
  using catalog_fold_inv [of "[]" raw] by (simp_all add: PIECES_def)

lemma precompute_fold:
  assumes "distinct (map fst al)" "\<forall>(k, p) \<in> set al. piece_id p = k"
  shows "map_of (fold (\<lambda>piece result. AList.update (piece_id piece) (placementsOf piece) result)
                   (map snd al) res) k =
         (case map_of al k of None \<Rightarrow> map_of res k | Some p \<Rightarrow> Some (placementsOf p))"
  using assms
proof (induction al arbitrary: res)
  case Nil
  then show ?case by simp
next
  case (Cons e al)
  obtain k0 p0 where e: "e = (k0, p0)" by (cases e)
  from Cons.prems e have id0: "piece_id p0 = k0" and fresh: "map_of al k0 = None"
    and d: "distinct (map fst al)" and inv: "\<forall>(k, p) \<in> set al. piece_id p = k"
    by (auto simp: map_of_eq_None_iff)
  show ?case
    using Cons.IH [OF d inv, of "AList.update k0 (placementsOf p0) res"] e id0 fresh
    by (auto simp: update_conv' split: option.splits)
qed

lemma map_of_PRECOMPUTED:
  "map_of (PRECOMPUTED_PLACEMENTS raw) k = map_option placementsOf (map_of (PIECES raw) k)"
  unfolding PRECOMPUTED_PLACEMENTS_def precomputeAllPlacements_def
  by (simp add: precompute_fold [OF PIECES_inv] split: option.splits)

lemma set_getLegalPlacements:
  "p \<in> set (getLegalPlacements raw b pieceId) \<longleftrightarrow>
     (\<exists>piece. map_of (PIECES raw) pieceId = Some piece \<and>
        pl_mask p = pieceMaskAt piece (pl_x p) (pl_y p) \<and> canPlace b piece (pl_x p) (pl_y p))"
  by (cases "map_of (PIECES raw) pieceId")
    (auto simp: getLegalPlacements_def map_of_PRECOMPUTED set_placementsOf canPlace_iff)

section \<open>The first-fit search returns the first completion\<close>

lemma dfsPairs_end: "dfsPairs order hi (length order) = []"
  by (simp add: dfsPairs_def)

lemma dfsPairs_step:
  "depth < length order \<Longrightarrow>
     dfsPairs order hi depth =
       (order ! depth, case js_nth hi (int depth) of None \<Rightarrow> None | Some h \<Rightarrow> h) #
       dfsPairs order hi (Suc depth)"
  by (simp add: dfsPairs_def upt_conv_Cons)

lemma firstOf_Nil [simp]: "firstOf path [] = None"
  by (simp add: firstOf_def)

lemma firstOf_append:
  "firstOf path (xs @ ys) = (case firstOf path xs of None \<Rightarrow> firstOf path ys | Some r \<Rightarrow> Some r)"
  by (cases xs) (simp_all add: firstOf_def)

lemma firstOf_map_Cons:
  "firstOf path (map ((#) s) seqs) = firstOf (path @ [s]) seqs"
  by (cases seqs) (simp_all add: firstOf_def)

lemma dfs_eq:
  shows "depth \<le> length order \<Longrightarrow>
           dfs raw b order hi depth path ee =
             Inr (firstOf path (completions raw b (dfsPairs order hi depth)))"
    and "depth < length order \<Longrightarrow>
           dfs_for raw b order hi depth path ee pid hidx ps =
             Inr (firstOf path
               (concat (map (\<lambda>p. map ((#) (stepRecord pid hidx p (placed b (pl_mask p))))
                     (completions raw (newBoard (placed b (pl_mask p)))
                        (dfsPairs order hi (Suc depth)))) ps)))"
proof (induction raw b order hi depth path ee and raw b order hi depth path ee pid hidx ps
    rule: dfs_dfs_for.induct)
  case (1 raw b order hi depth path ee)
  show ?case
  proof (cases "depth = length order")
    case True
    then show ?thesis
      by (subst dfs.simps) (simp add: dfsPairs_end firstOf_def)
  next
    case False
    with "1.prems" have lt: "depth < length order" by simp
    then have nth: "js_nth order (int depth) = Some (order ! depth)"
      by (simp add: js_nth_def)
    show ?thesis
      using "1.IH" [OF False nth lt] False nth
      by (subst dfs.simps) (simp add: dfsPairs_step [OF lt])
  qed
next
  case (2 raw b order hi depth path ee pid hidx)
  then show ?case by simp
next
  case (3 raw b order hi depth path ee pid hidx p ps)
  let ?r = "placed b (pl_mask p)"
  let ?step = "stepRecord pid hidx p ?r"
  have pp: "placePiece b (pl_mask p) = Inr ?r"
    by (rule placePiece_eq)
  have step: "\<lparr>step_pieceId = pid, step_handIndex = hidx, step_x = pl_x p, step_y = pl_y p,
        step_clearedRows = clearedRows ?r, step_clearedCols = clearedCols ?r,
        step_boardAfter = newBoard ?r\<rparr> = ?step"
    by (simp add: stepRecord_def)
  from "3.prems" have le: "depth + 1 \<le> length order" by simp
  have deep: "dfs raw (newBoard ?r) order hi (depth + 1) (path @ [?step]) ee =
      Inr (firstOf (path @ [?step])
             (completions raw (newBoard ?r) (dfsPairs order hi (Suc depth))))"
    using "3.IH"(1) [OF pp le] by (simp add: step)
  show ?case
  proof (cases "firstOf (path @ [?step])
             (completions raw (newBoard ?r) (dfsPairs order hi (Suc depth)))")
    case None
    have "dfs_for raw b order hi depth path ee pid hidx ps =
        Inr (firstOf path
               (concat (map (\<lambda>p. map ((#) (stepRecord pid hidx p (placed b (pl_mask p))))
                     (completions raw (newBoard (placed b (pl_mask p)))
                        (dfsPairs order hi (Suc depth)))) ps)))"
      using "3.IH"(2) [OF pp _ None "3.prems"] deep None by (simp add: step)
    then show ?thesis
      using pp deep None by (simp add: step firstOf_append firstOf_map_Cons)
  next
    case (Some res)
    then show ?thesis
      using pp deep by (simp add: step firstOf_append firstOf_map_Cons)
  qed
qed

section \<open>Completions and placeable orderings\<close>

inductive_cases placeable_ConsE: "placeable raw b (pieceId # rest)"

lemma completions_nonempty_iff:
  "completions raw b pairs \<noteq> [] \<longleftrightarrow> placeable raw b (map fst pairs)"
proof (induction pairs arbitrary: b)
  case Nil
  show ?case by (simp add: placeable_Nil)
next
  case (Cons e pairs)
  obtain pid hidx where e: "e = (pid, hidx)" by (cases e)
  have "completions raw b (e # pairs) \<noteq> [] \<longleftrightarrow>
        (\<exists>p \<in> set (getLegalPlacements raw b pid).
           completions raw (newBoard (placed b (pl_mask p))) pairs \<noteq> [])"
    by (auto simp: e)
  also have "\<dots> \<longleftrightarrow> (\<exists>p \<in> set (getLegalPlacements raw b pid).
           placeable raw (newBoard (placed b (pl_mask p))) (map fst pairs))"
    using Cons.IH by simp
  also have "\<dots> \<longleftrightarrow> placeable raw b (pid # map fst pairs)"
  proof
    assume "\<exists>p \<in> set (getLegalPlacements raw b pid).
           placeable raw (newBoard (placed b (pl_mask p))) (map fst pairs)"
    then obtain p where pin: "p \<in> set (getLegalPlacements raw b pid)"
        and pl: "placeable raw (newBoard (placed b (pl_mask p))) (map fst pairs)"
      by blast
    from pin obtain piece where "map_of (PIECES raw) pid = Some piece"
        "pl_mask p = pieceMaskAt piece (pl_x p) (pl_y p)" "canPlace b piece (pl_x p) (pl_y p)"
      unfolding set_getLegalPlacements by blast
    with pl have p: "map_of (PIECES raw) pid = Some piece"
        "pl_mask p = pieceMaskAt piece (pl_x p) (pl_y p)" "canPlace b piece (pl_x p) (pl_y p)"
        "placeable raw (newBoard (placed b (pl_mask p))) (map fst pairs)"
      by simp_all
    show "placeable raw b (pid # map fst pairs)"
      by (rule placeable_Cons [OF p(1) p(3) placePiece_eq]) (use p(2) p(4) in simp)
  next
    assume "placeable raw b (pid # map fst pairs)"
    then obtain piece x y r where q: "map_of (PIECES raw) pid = Some piece" "canPlace b piece x y"
        "placePiece b (pieceMaskAt piece x y) = Inr r" "placeable raw (newBoard r) (map fst pairs)"
      by (rule placeable_ConsE)
    let ?p = "\<lparr>pl_x = x, pl_y = y, pl_mask = pieceMaskAt piece x y\<rparr>"
    from q(3) have r: "r = placed b (pl_mask ?p)"
      by (simp add: placePiece_eq)
    have "?p \<in> set (getLegalPlacements raw b pid)"
      using q(1) q(2) by (simp add: set_getLegalPlacements)
    moreover have "placeable raw (newBoard (placed b (pl_mask ?p))) (map fst pairs)"
      using q(4) r by simp
    ultimately show "\<exists>p \<in> set (getLegalPlacements raw b pid).
           placeable raw (newBoard (placed b (pl_mask p))) (map fst pairs)"
      by blast
  qed
  finally show ?case by (simp add: e)
qed

lemma completions_length:
  "s \<in> set (completions raw b pairs) \<Longrightarrow> length s = length pairs"
  by (induction pairs arbitrary: b s) auto

lemma firstOf_None_iff: "firstOf path seqs = None \<longleftrightarrow> seqs = []"
  by (cases seqs) (simp_all add: firstOf_def)

lemma firstOf_SomeD: "firstOf path seqs = Some r \<Longrightarrow> \<exists>s \<in> set seqs. r = path @ s"
  by (cases seqs) (auto simp: firstOf_def)

lemma dfsPairs_map:
  "dfsPairs (map f ord) (map g ord) 0 = map (\<lambda>i. (f i, g i)) ord"
  by (rule nth_equalityI) (simp_all add: dfsPairs_def js_nth_def)

lemma permutations_012:
  "permutations [0 :: nat, 1, 2] = [[0, 1, 2], [0, 2, 1], [1, 0, 2], [1, 2, 0], [2, 0, 1], [2, 1, 0]]"
  by (simp add: permutations.simps)

lemma set_permutations_012:
  "ord \<in> set (permutations [0 :: nat, 1, 2]) \<longleftrightarrow> distinct ord \<and> set ord = {0, 1, 2}"
proof
  assume "ord \<in> set (permutations [0 :: nat, 1, 2])"
  then show "distinct ord \<and> set ord = {0, 1, 2}"
    unfolding permutations_012 by auto
next
  assume h: "distinct ord \<and> set ord = {0, 1, 2}"
  then have "length ord = 3"
    using distinct_card [of ord] by simp
  then obtain x y z where o: "ord = [x, y, z]"
    by (auto simp: numeral_3_eq_3 length_Suc_conv)
  have "x \<in> set ord" "y \<in> set ord" "z \<in> set ord"
    using o by simp_all
  with h have mem: "x \<in> {0, 1, 2}" "y \<in> {0, 1, 2}" "z \<in> {0, 1, 2}"
    by simp_all
  from h o have ne: "x \<noteq> y" "x \<noteq> z" "y \<noteq> z"
    by simp_all
  have "[x, y, z] \<in> {[0, 1, 2], [0, 2, 1], [1, 0, 2], [1, 2, 0], [2, 0, 1], [2, 1, 0]}"
    using mem ne by (elim insertE emptyE) simp_all
  then show "ord \<in> set (permutations [0 :: nat, 1, 2])"
    unfolding o permutations_012 by simp
qed

section \<open>First-fit solving\<close>

lemma lastBoardAfter_nonempty:
  "path \<noteq> [] \<Longrightarrow> lastBoardAfter path = Inr (step_boardAfter (last path))"
  by (simp add: lastBoardAfter_def)

lemma solveTriple_for_eq:
  assumes "\<forall>ord \<in> set orders. ord \<noteq> []"
  shows "\<exists>r. solveTriple_for raw b h orders = Inr r \<and>
           (r = None \<longleftrightarrow>
              (\<forall>ord \<in> set orders. completions raw b (map (\<lambda>i. (h ! i, Some (int i))) ord) = []))"
  using assms
proof (induction orders)
  case Nil
  show ?case by simp
next
  case (Cons ord orders)
  let ?cs = "completions raw b (map (\<lambda>i. (h ! i, Some (int i))) ord)"
  have run: "dfs raw b (map (\<lambda>i. h ! i) ord) (map (\<lambda>i. Some (int i)) ord) 0 [] True =
      Inr (firstOf [] ?cs)"
    using dfs_eq(1) [of 0 "map (\<lambda>i. h ! i) ord" raw b "map (\<lambda>i. Some (int i)) ord" "[]" True]
    by (simp add: dfsPairs_map)
  from Cons.prems have rest: "\<forall>ord \<in> set orders. ord \<noteq> []" and ne: "ord \<noteq> []"
    by simp_all
  show ?case
  proof (cases "firstOf [] ?cs")
    case None
    then have "?cs = []" by (simp add: firstOf_None_iff)
    with Cons.IH [OF rest] run None show ?thesis
      by (simp add: Let_def)
  next
    case (Some steps0)
    then obtain s where s: "s \<in> set ?cs" "steps0 = s"
      using firstOf_SomeD by fastforce
    then have "length steps0 = length ord"
      using completions_length [of s raw b] by simp
    with ne have "steps0 \<noteq> []" by auto
    then have "lastBoardAfter steps0 = Inr (step_boardAfter (last steps0))"
      by (rule lastBoardAfter_nonempty)
    moreover from s have "?cs \<noteq> []" by auto
    ultimately show ?thesis
      using run Some by (simp add: Let_def)
  qed
qed

lemma permutations_012_nonempty: "\<forall>ord \<in> set (permutations [0 :: nat, 1, 2]). ord \<noteq> []"
  unfolding permutations_012 by simp

lemma demo_placeable: "placeable demoCatalog 0 [4, 3, 2]"
proof -
  let ?p4 = "\<lparr>piece_id = 4, piece_w = 1, piece_h = 1, piece_cells = [(0, 0)],
              piece_hash = ''0,0''\<rparr>"
  let ?p3 = "\<lparr>piece_id = 3, piece_w = 2, piece_h = 1, piece_cells = [(0, 0), (1, 0)],
              piece_hash = ''0,0;1,0''\<rparr>"
  let ?p2 = "\<lparr>piece_id = 2, piece_w = 3, piece_h = 1, piece_cells = [(0, 0), (1, 0), (2, 0)],
              piece_hash = ''0,0;1,0;2,0''\<rparr>"
  have l4: "map_of (PIECES demoCatalog) 4 = Some ?p4"
    and l3: "map_of (PIECES demoCatalog) 3 = Some ?p3"
    and l2: "map_of (PIECES demoCatalog) 2 = Some ?p2"
    by (simp_all add: PIECES_demoCatalog)
  have m4: "pieceMaskAt ?p4 0 0 = 1" and m3: "pieceMaskAt ?p3 1 0 = 6"
    and m2: "pieceMaskAt ?p2 3 0 = 56"
    by (simp_all add: pieceMaskAt_def isInBounds_def setBit_def coordToIndex_exact js_shl_def)
  have c4: "canPlace 0 ?p4 0 0" and c3: "canPlace 1 ?p3 1 0" and c2: "canPlace 7 ?p2 3 0"
    by (simp_all add: canPlace_iff m4 m3 m2)
  have b4: "newBoard (placed 0 1) = 1" and b3: "newBoard (placed 1 6) = 7"
    and b2: "newBoard (placed 7 56) = 63"
    by (simp_all add: placed_def rowsFilledIn_def colsFilledIn_def clearMaskFor_def
        ROW_MASKS_val COL_MASKS_val upto.simps)
  have "placeable demoCatalog 63 []"
    by (rule placeable_Nil)
  then have "placeable demoCatalog 7 [2]"
    using placeable_Cons [OF l2 c2 placePiece_eq, of "[]"] by (simp add: m2 b2)
  then have "placeable demoCatalog 1 [3, 2]"
    using placeable_Cons [OF l3 c3 placePiece_eq, of "[2]"] by (simp add: m3 b3)
  then show "placeable demoCatalog 0 [4, 3, 2]"
    using placeable_Cons [OF l4 c4 placePiece_eq, of "[3, 2]"] by (simp add: m4 b4)
qed

text \<open>
  Claim C4. For a hand of three pieces \<open>solveTriple\<close> returns without raising, and it
  returns \<open>null\<close> exactly when no ordering of the three hand slots can be placed
  completely: a depth without a legal placement only ends that branch of the search.
\<close>

theorem solveTriple_null_iff:
  assumes "length h = 3"
  shows "\<exists>r. solveTriple raw b h = Inr r \<and>
           (r = None \<longleftrightarrow>
              \<not> (\<exists>ord. distinct ord \<and> set ord = {0, 1, 2} \<and>
                     placeable raw b (map (\<lambda>i. h ! i) ord)))"
proof -
  from solveTriple_for_eq [OF permutations_012_nonempty, of raw b h]
  obtain r where r: "solveTriple_for raw b h (permutations [0, 1, 2]) = Inr r"
    and none: "r = None \<longleftrightarrow>
      (\<forall>ord \<in> set (permutations [0, 1, 2]).
         completions raw b (map (\<lambda>i. (h ! i, Some (int i))) ord) = [])"
    by blast
  have "completions raw b (map (\<lambda>i. (h ! i, Some (int i))) ord) = [] \<longleftrightarrow>
        \<not> placeable raw b (map (\<lambda>i. h ! i) ord)" for ord
    using completions_nonempty_iff [of raw b "map (\<lambda>i. (h ! i, Some (int i))) ord"]
    by (auto simp: comp_def)
  with none set_permutations_012 have "r = None \<longleftrightarrow>
      \<not> (\<exists>ord. distinct ord \<and> set ord = {0, 1, 2} \<and> placeable raw b (map (\<lambda>i. h ! i) ord))"
    by blast
  with r assms show ?thesis
    by (simp add: solveTriple_def)
qed

theorem solveTriple_null_iff_witness:
  "\<exists>s. solveTriple demoCatalog 0 [4, 3, 2] = Inr (Some s)"
proof -
  have three: "length [4, 3, 2 :: int] = 3" by simp
  have ex: "\<exists>ord. distinct ord \<and> set ord = {0, 1, 2} \<and>
      placeable demoCatalog 0 (map (\<lambda>i. [4, 3, 2] ! i) ord)"
    using demo_placeable by (intro exI [of _ "[0, 1, 2]"]) auto
  from solveTriple_null_iff [OF three, of demoCatalog 0] obtain r where
    "solveTriple demoCatalog 0 [4, 3, 2] = Inr r"
    "r = None \<longleftrightarrow>
       \<not> (\<exists>ord. distinct ord \<and> set ord = {0, 1, 2} \<and>
              placeable demoCatalog 0 (map (\<lambda>i. [4, 3, 2] ! i) ord))"
    by (elim exE conjE) (rule that; assumption)
  with ex show ?thesis by auto
qed

lemma solvePartial_for_returns:
  "\<exists>r. solvePartial_for raw b remaining hi orders = Inr r"
proof (induction orders)
  case Nil
  show ?case by simp
next
  case (Cons ord orders)
  have "\<exists>r. dfs raw b (map (\<lambda>i. remaining ! i) ord) (map (\<lambda>i. js_nth hi (int i)) ord) 0 [] True =
      Inr r"
    using dfs_eq(1) [of 0 "map (\<lambda>i. remaining ! i) ord" raw b
        "map (\<lambda>i. js_nth hi (int i)) ord" "[]" True]
    by simp
  then obtain r where "dfs raw b (map (\<lambda>i. remaining ! i) ord)
      (map (\<lambda>i. js_nth hi (int i)) ord) 0 [] True = Inr r"
    by blast
  with Cons.IH show ?case
    by (cases r) (simp_all add: Let_def)
qed

text \<open>
  Claim C10. On a hand whose length is not 3, \<open>solveTriple\<close>, \<open>findAllSolutions\<close> and
  \<open>findBestSolution\<close> raise the hand-size error; \<open>solvePartial\<close> on the same hand returns.
\<close>

theorem hand_not_three_raises:
  assumes "length h \<noteq> 3"
  shows "solveTriple raw b h = Inl HandNotThree \<and>
         findAllSolutions raw b h maxSolutions = Inl HandNotThree \<and>
         findBestSolution raw b h maxSolutions = Inl HandNotThree \<and>
         (\<exists>r. solvePartial raw b h handIndices = Inr r)"
  using assms solvePartial_for_returns [of raw b h handIndices]
  by (simp add: solveTriple_def findAllSolutions_def findBestSolution_def solvePartial_def)

theorem hand_not_three_raises_witness:
  "solveTriple demoCatalog 0 [4, 3] = Inl HandNotThree \<and>
   findAllSolutions demoCatalog 0 [4, 3] 200 = Inl HandNotThree \<and>
   findBestSolution demoCatalog 0 [4, 3] 200 = Inl HandNotThree \<and>
   (\<exists>r. solvePartial demoCatalog 0 [4, 3] [0, 1] = Inr r)"
proof -
  have two: "length [4, 3 :: int] \<noteq> 3" by simp
  show ?thesis
    by (rule hand_not_three_raises [OF two])
qed

section \<open>The capped search collects a prefix of all solutions\<close>

lemma dfsAllPairs_end: "dfsAllPairs order hi (length order) = []"
  by (simp add: dfsAllPairs_def)

lemma dfsAllPairs_step:
  "depth < length order \<Longrightarrow>
     dfsAllPairs order hi depth =
       (order ! depth, js_nth hi (int depth)) # dfsAllPairs order hi (Suc depth)"
  by (simp add: dfsAllPairs_def upt_conv_Cons)

lemma dfsAllPairs_map:
  "dfsAllPairs (map f ord) (map int ord) 0 = map (\<lambda>i. (f i, Some (int i))) ord"
  by (rule nth_equalityI) (simp_all add: dfsAllPairs_def js_nth_def)

lemma capped_append:
  "(sols @ take (n - length sols) xs) @
     take (n - length (sols @ take (n - length sols) xs)) ys =
   sols @ take (n - length sols) (xs @ ys)"
  by (simp add: min_def)

lemma cap_reached: "cap \<le> int (length sols) \<Longrightarrow> nat cap - length sols = 0"
  by simp

lemma dfsAll_eq:
  shows "depth \<le> length order \<Longrightarrow> (depth = length order \<longrightarrow> path \<noteq> []) \<Longrightarrow>
           dfsAll raw h cap b order hi depth path sols =
             Inr (sols @ take (nat cap - length sols)
               (map (\<lambda>s. solutionOf raw h order hi (path @ s))
                  (completions raw b (dfsAllPairs order hi depth))))"
    and "depth < length order \<Longrightarrow>
           dfsAll_for raw h cap b order hi depth path pid hidx ps sols =
             Inr (sols @ take (nat cap - length sols)
               (map (\<lambda>s. solutionOf raw h order hi (path @ s))
                  (concat (map (\<lambda>p. map ((#) (stepRecord pid hidx p (placed b (pl_mask p))))
                     (completions raw (newBoard (placed b (pl_mask p)))
                        (dfsAllPairs order hi (Suc depth)))) ps))))"
proof (induction raw h cap b order hi depth path sols
    and raw h cap b order hi depth path pid hidx ps sols rule: dfsAll_dfsAll_for.induct)
  case (1 raw h cap b order hi depth path sols)
  show ?case
  proof (cases "cap \<le> int (length sols)")
    case True
    then show ?thesis
      by (subst dfsAll.simps) (simp add: cap_reached)
  next
    case room0: False
    then have room: "0 < nat cap - length sols" by simp
    show ?thesis
    proof (cases "depth = length order")
      case True
      with "1.prems" have "path \<noteq> []" by simp
      then have "lastBoardAfter path = Inr (step_boardAfter (last path))"
        by (rule lastBoardAfter_nonempty)
      moreover have "take (nat cap - length sols) [solutionOf raw h order hi path] =
          [solutionOf raw h order hi path]"
        using room by (cases "nat cap - length sols") simp_all
      ultimately show ?thesis
        using room0 True
        by (subst dfsAll.simps) (simp add: dfsAllPairs_end solutionOf_def)
    next
      case False
      with "1.prems" have lt: "depth < length order" by simp
      then have nth: "js_nth order (int depth) = Some (order ! depth)"
        by (simp add: js_nth_def)
      show ?thesis
        using "1.IH" [OF room0 False nth lt] room0 False nth
        by (subst dfsAll.simps) (simp add: dfsAllPairs_step [OF lt])
    qed
  qed
next
  case (2 raw h cap b order hi depth path pid hidx sols)
  then show ?case by simp
next
  case (3 raw h cap b order hi depth path pid hidx p ps sols)
  show ?case
  proof (cases "cap \<le> int (length sols)")
    case True
    then show ?thesis by (simp add: cap_reached)
  next
    case room0: False
    let ?r = "placed b (pl_mask p)"
    let ?step = "stepRecord pid hidx p ?r"
    let ?mk = "\<lambda>path s. solutionOf raw h order hi (path @ s)"
    let ?first = "map (?mk (path @ [?step]))
        (completions raw (newBoard ?r) (dfsAllPairs order hi (Suc depth)))"
    let ?rest = "map (?mk path)
        (concat (map (\<lambda>p. map ((#) (stepRecord pid hidx p (placed b (pl_mask p))))
                     (completions raw (newBoard (placed b (pl_mask p)))
                        (dfsAllPairs order hi (Suc depth)))) ps))"
    let ?sols' = "sols @ take (nat cap - length sols) ?first"
    have pp: "placePiece b (pl_mask p) = Inr ?r"
      by (rule placePiece_eq)
    have step: "\<lparr>step_pieceId = pid, step_handIndex = hidx, step_x = pl_x p, step_y = pl_y p,
          step_clearedRows = clearedRows ?r, step_clearedCols = clearedCols ?r,
          step_boardAfter = newBoard ?r\<rparr> = ?step"
      by (simp add: stepRecord_def)
    from "3.prems" have le: "depth + 1 \<le> length order" by simp
    have ne: "depth + 1 = length order \<longrightarrow> path @ [?step] \<noteq> []" by simp
    have deep: "dfsAll raw h cap (newBoard ?r) order hi (depth + 1) (path @ [?step]) sols =
        Inr ?sols'"
      using "3.IH"(1) [OF room0 pp le] by (simp add: step)
    have after: "dfsAll_for raw h cap b order hi depth path pid hidx ps ?sols' =
        Inr (?sols' @ take (nat cap - length ?sols') ?rest)"
      using "3.IH"(2) [OF room0 pp _ "3.prems", of ?sols'] deep by (simp add: step)
    have unroll: "dfsAll_for raw h cap b order hi depth path pid hidx (p # ps) sols =
        dfsAll_for raw h cap b order hi depth path pid hidx ps ?sols'"
      using room0 pp deep by (simp add: step)
    have split: "map (?mk path)
        (concat (map (\<lambda>p. map ((#) (stepRecord pid hidx p (placed b (pl_mask p))))
                     (completions raw (newBoard (placed b (pl_mask p)))
                        (dfsAllPairs order hi (Suc depth)))) (p # ps))) = ?first @ ?rest"
      by (simp add: comp_def)
    show ?thesis
      by (simp only: unroll after split capped_append)
  qed
qed

lemma findAllSolutions_for_eq:
  assumes "\<forall>ord \<in> set orders. ord \<noteq> []"
  shows "findAllSolutions_for raw b h cap orders sols =
     Inr (sols @ take (nat cap - length sols) (concat (map (solutionsOfOrder raw b h) orders)))"
  using assms
proof (induction orders arbitrary: sols)
  case Nil
  show ?case by simp
next
  case (Cons ord orders)
  show ?case
  proof (cases "cap \<le> int (length sols)")
    case True
    then show ?thesis by (simp add: cap_reached)
  next
    case False
    let ?here = "solutionsOfOrder raw b h ord"
    let ?sols' = "sols @ take (nat cap - length sols) ?here"
    from Cons.prems have ne: "ord \<noteq> []" and rest: "\<forall>ord \<in> set orders. ord \<noteq> []"
      by simp_all
    have "dfsAll raw h cap b (map (\<lambda>i. h ! i) ord) (map int ord) 0 [] sols =
        Inr (sols @ take (nat cap - length sols)
               (map (\<lambda>s. solutionOf raw h (map (\<lambda>i. h ! i) ord) (map int ord) ([] @ s))
                  (completions raw b (dfsAllPairs (map (\<lambda>i. h ! i) ord) (map int ord) 0))))"
      by (rule dfsAll_eq(1)) (use ne in simp_all)
    then have here: "dfsAll raw h cap b (map (\<lambda>i. h ! i) ord) (map int ord) 0 [] sols = Inr ?sols'"
      by (simp add: solutionsOfOrder_def dfsAllPairs_map)
    have unroll: "findAllSolutions_for raw b h cap (ord # orders) sols =
        findAllSolutions_for raw b h cap orders ?sols'"
      using False here by (simp add: Let_def)
    have split: "concat (map (solutionsOfOrder raw b h) (ord # orders)) =
        ?here @ concat (map (solutionsOfOrder raw b h) orders)"
      by simp
    show ?thesis
      by (simp only: unroll Cons.IH [OF rest] split capped_append)
  qed
qed

lemma findAllSolutions_eq:
  "length h = 3 \<Longrightarrow>
     findAllSolutions raw b h cap = Inr (take (nat cap) (allSolutions raw b h))"
  using findAllSolutions_for_eq [OF permutations_012_nonempty, of raw b h cap "[]"]
  by (simp add: findAllSolutions_def allSolutions_def)

lemma allSolutions_empty_iff:
  "allSolutions raw b h = [] \<longleftrightarrow>
     \<not> (\<exists>ord. distinct ord \<and> set ord = {0, 1, 2} \<and> placeable raw b (map (\<lambda>i. h ! i) ord))"
proof -
  have "solutionsOfOrder raw b h ord = [] \<longleftrightarrow> \<not> placeable raw b (map (\<lambda>i. h ! i) ord)" for ord
    using completions_nonempty_iff [of raw b "map (\<lambda>i. (h ! i, Some (int i))) ord"]
    by (auto simp: solutionsOfOrder_def comp_def)
  then have "allSolutions raw b h = [] \<longleftrightarrow>
      (\<forall>ord \<in> set (permutations [0, 1, 2]). \<not> placeable raw b (map (\<lambda>i. h ! i) ord))"
    by (simp add: allSolutions_def)
  with set_permutations_012 show ?thesis
    by blast
qed

lemma allSolutions_shape:
  assumes "s \<in> set (allSolutions raw b h)"
  shows "length (steps s) = 3 \<and> finalBoard s = step_boardAfter (last (steps s)) \<and>
         mobility s = computeMobility raw (finalBoard s)"
proof -
  from assms obtain ord path where ord: "ord \<in> set (permutations [0, 1, 2])"
    and path: "path \<in> set (completions raw b (map (\<lambda>i. (h ! i, Some (int i))) ord))"
    and s: "s = solutionOf raw h (map (\<lambda>i. h ! i) ord) (map int ord) path"
    by (auto simp: allSolutions_def solutionsOfOrder_def)
  from ord have "length ord = 3"
    unfolding permutations_012 by auto
  with completions_length [OF path] s show ?thesis
    by (simp add: solutionOf_def)
qed

section \<open>The best solution is the first of maximal mobility\<close>

lemma insort_key_first:
  "insort_key f x ys ! 0 = (if ys = [] \<or> f x \<le> f (ys ! 0) then x else ys ! 0)"
  by (cases ys) simp_all

lemma sort_key_first:
  fixes f :: "'a \<Rightarrow> int"
  shows "xs \<noteq> [] \<Longrightarrow>
     \<exists>i < length xs. sort_key f xs ! 0 = xs ! i \<and>
        (\<forall>j < length xs. f (xs ! i) \<le> f (xs ! j)) \<and> (\<forall>j < i. f (xs ! i) < f (xs ! j))"
proof (induction xs)
  case Nil
  then show ?case by simp
next
  case (Cons x xs)
  show ?case
  proof (cases "xs = []")
    case True
    then show ?thesis by simp
  next
    case False
    from Cons.IH [OF False] obtain i where i: "i < length xs"
      "sort_key f xs ! 0 = xs ! i" "\<forall>j < length xs. f (xs ! i) \<le> f (xs ! j)"
      "\<forall>j < i. f (xs ! i) < f (xs ! j)"
      by blast
    have ne: "sort_key f xs \<noteq> []"
      using False by (metis length_sort length_0_conv)
    have first: "sort_key f (x # xs) ! 0 = (if f x \<le> f (xs ! i) then x else xs ! i)"
      using ne i(2) by (simp add: insort_key_first)
    show ?thesis
    proof (cases "f x \<le> f (xs ! i)")
      case True
      have "\<forall>j < length (x # xs). f ((x # xs) ! 0) \<le> f ((x # xs) ! j)"
      proof (intro allI impI)
        fix j assume "j < length (x # xs)"
        then show "f ((x # xs) ! 0) \<le> f ((x # xs) ! j)"
          using True i(3) by (cases j) (auto intro: order_trans)
      qed
      then show ?thesis
        using first True by (intro exI [of _ 0]) simp
    next
      case False
      have a: "\<forall>j < length (x # xs). f ((x # xs) ! Suc i) \<le> f ((x # xs) ! j)"
      proof (intro allI impI)
        fix j assume "j < length (x # xs)"
        then show "f ((x # xs) ! Suc i) \<le> f ((x # xs) ! j)"
          using False i(3) by (cases j) auto
      qed
      have b: "\<forall>j < Suc i. f ((x # xs) ! Suc i) < f ((x # xs) ! j)"
      proof (intro allI impI)
        fix j assume "j < Suc i"
        then show "f ((x # xs) ! Suc i) < f ((x # xs) ! j)"
          using False i(4) by (cases j) auto
      qed
      show ?thesis
        using first False i(1) a b by (intro exI [of _ "Suc i"]) simp
    qed
  qed
qed

section \<open>The placement table is in row-major order\<close>

lemma sorted_wrt_concat_map:
  assumes "sorted_wrt S xs" and "\<And>x. x \<in> set xs \<Longrightarrow> sorted_wrt R (f x)"
    and "\<And>x y a b. S x y \<Longrightarrow> a \<in> set (f x) \<Longrightarrow> b \<in> set (f y) \<Longrightarrow> R a b"
  shows "sorted_wrt R (concat (map f xs))"
  using assms by (induction xs) (auto simp: sorted_wrt_append)

lemma upto_strict: "sorted_wrt (<) [i..j]"
  by (simp add: strict_sorted_iff)

lemma placementsOf_rowMajor: "sorted_wrt rowMajorBefore (placementsOf piece)"
  unfolding placementsOf_def
proof (rule sorted_wrt_concat_map [OF upto_strict])
  fix py
  show "sorted_wrt rowMajorBefore
      (concat (map (\<lambda>px. let msk = pieceMaskAt piece px py in
                           if msk \<noteq> 0 then [\<lparr>pl_x = px, pl_y = py, pl_mask = msk\<rparr>] else [])
                 [0..8 - piece_w piece]))"
    by (rule sorted_wrt_concat_map [OF upto_strict])
      (auto simp: Let_def rowMajorBefore_def split: if_splits)
next
  fix py qy :: int and a c
  assume "py < qy"
    and "a \<in> set (concat (map (\<lambda>px. let msk = pieceMaskAt piece px py in
                           if msk \<noteq> 0 then [\<lparr>pl_x = px, pl_y = py, pl_mask = msk\<rparr>] else [])
                 [0..8 - piece_w piece]))"
    and "c \<in> set (concat (map (\<lambda>px. let msk = pieceMaskAt piece px qy in
                           if msk \<noteq> 0 then [\<lparr>pl_x = px, pl_y = qy, pl_mask = msk\<rparr>] else [])
                 [0..8 - piece_w piece]))"
  then show "rowMajorBefore a c"
    by (auto simp: Let_def rowMajorBefore_def split: if_splits)
qed

lemma getLegalPlacements_rowMajor:
  "sorted_wrt rowMajorBefore (getLegalPlacements raw b pieceId)"
  by (cases "map_of (PIECES raw) pieceId")
    (simp_all add: getLegalPlacements_def map_of_PRECOMPUTED sorted_wrt_filter
      placementsOf_rowMajor)

section \<open>Best-of solving\<close>

text \<open>
  Claim C3, as stated, fails when the cap is 0: nothing is collected and the result is
  \<open>null\<close>, although the hand \<open>[4, 3, 2]\<close> can be placed completely on the empty board.
\<close>

theorem findBestSolution_cap_zero_counterexample:
  "findBestSolution demoCatalog 0 [4, 3, 2] 0 = Inr None \<and> placeable demoCatalog 0 [4, 3, 2]"
proof
  have "findAllSolutions demoCatalog 0 [4, 3, 2] 0 = Inr []"
    by (simp add: findAllSolutions_eq)
  then show "findBestSolution demoCatalog 0 [4, 3, 2] 0 = Inr None"
    by (simp add: findBestSolution_def)
next
  show "placeable demoCatalog 0 [4, 3, 2]"
    by (rule demo_placeable)
qed

text \<open>
  Claim C3, amended. For a hand of three pieces \<open>findAllSolutions\<close> returns the first
  \<open>maxSolutions\<close> elements of the list of all complete solutions, enumerated ordering by
  ordering and within an ordering depth first in the order of the placement table, which
  is row-major. Each collected solution has three steps and carries the mobility of its
  final board. \<open>findBestSolution\<close> returns \<open>null\<close> when nothing was collected, and
  otherwise the first collected solution whose mobility is maximal. When \<open>maxSolutions\<close>
  is at least 1, it returns \<open>null\<close> exactly when no ordering of the hand can be placed
  completely.
\<close>

theorem findBestSolution_first_best:
  assumes "length h = 3"
  shows "(\<exists>sols r. findAllSolutions raw b h maxSolutions = Inr sols \<and>
            sols = take (nat maxSolutions) (allSolutions raw b h) \<and>
            (\<forall>s \<in> set sols. length (steps s) = 3 \<and>
               finalBoard s = step_boardAfter (last (steps s)) \<and>
               mobility s = computeMobility raw (finalBoard s)) \<and>
            findBestSolution raw b h maxSolutions = Inr r \<and>
            (case r of
               None \<Rightarrow> sols = []
             | Some s \<Rightarrow>
                 \<exists>i < length sols. s = sols ! i \<and>
                   (\<forall>j < length sols. mobility (sols ! j) \<le> mobility s) \<and>
                   (\<forall>j < i. mobility (sols ! j) < mobility s)) \<and>
            (1 \<le> maxSolutions \<longrightarrow>
               (r = None \<longleftrightarrow>
                  \<not> (\<exists>ord. distinct ord \<and> set ord = {0, 1, 2} \<and>
                         placeable raw b (map (\<lambda>i. h ! i) ord))))) \<and>
         (\<forall>b' pieceId. sorted_wrt rowMajorBefore (getLegalPlacements raw b' pieceId))"
proof (intro conjI allI)
  let ?sols = "take (nat maxSolutions) (allSolutions raw b h)"
  let ?r = "if ?sols = [] then None else Some (sort_key (\<lambda>s. - mobility s) ?sols ! 0)"
  have all: "findAllSolutions raw b h maxSolutions = Inr ?sols"
    by (rule findAllSolutions_eq [OF assms])
  have shape: "\<forall>s \<in> set ?sols. length (steps s) = 3 \<and>
               finalBoard s = step_boardAfter (last (steps s)) \<and>
               mobility s = computeMobility raw (finalBoard s)"
    using allSolutions_shape [of _ raw b h] by (meson in_set_takeD)
  have best: "findBestSolution raw b h maxSolutions = Inr ?r"
    by (simp add: findBestSolution_def all)
  have pick: "case ?r of
               None \<Rightarrow> ?sols = []
             | Some s \<Rightarrow>
                 \<exists>i < length ?sols. s = ?sols ! i \<and>
                   (\<forall>j < length ?sols. mobility (?sols ! j) \<le> mobility s) \<and>
                   (\<forall>j < i. mobility (?sols ! j) < mobility s)"
  proof (cases "?sols = []")
    case True
    then show ?thesis by simp
  next
    case False
    from sort_key_first [OF False, of "\<lambda>s. - mobility s"] obtain i where
      "i < length ?sols" "sort_key (\<lambda>s. - mobility s) ?sols ! 0 = ?sols ! i"
      "\<forall>j < length ?sols. - mobility (?sols ! i) \<le> - mobility (?sols ! j)"
      "\<forall>j < i. - mobility (?sols ! i) < - mobility (?sols ! j)"
      by blast
    then have "\<exists>i < length ?sols. sort_key (\<lambda>s. - mobility s) ?sols ! 0 = ?sols ! i \<and>
        (\<forall>j < length ?sols. mobility (?sols ! j) \<le> mobility (?sols ! i)) \<and>
        (\<forall>j < i. mobility (?sols ! j) < mobility (?sols ! i))"
      by auto
    with False show ?thesis by auto
  qed
  have null: "1 \<le> maxSolutions \<longrightarrow>
      (?r = None \<longleftrightarrow>
         \<not> (\<exists>ord. distinct ord \<and> set ord = {0, 1, 2} \<and> placeable raw b (map (\<lambda>i. h ! i) ord)))"
  proof
    assume "1 \<le> maxSolutions"
    then have "?sols = [] \<longleftrightarrow> allSolutions raw b h = []"
      by (simp add: take_eq_Nil)
    then show "?r = None \<longleftrightarrow>
         \<not> (\<exists>ord. distinct ord \<and> set ord = {0, 1, 2} \<and> placeable raw b (map (\<lambda>i. h ! i) ord))"
      using allSolutions_empty_iff [of raw b h] by simp
  qed
  from all shape best pick null
  show "\<exists>sols r. findAllSolutions raw b h maxSolutions = Inr sols \<and>
            sols = take (nat maxSolutions) (allSolutions raw b h) \<and>
            (\<forall>s \<in> set sols. length (steps s) = 3 \<and>
               finalBoard s = step_boardAfter (last (steps s)) \<and>
               mobility s = computeMobility raw (finalBoard s)) \<and>
            findBestSolution raw b h maxSolutions = Inr r \<and>
            (case r of
               None \<Rightarrow> sols = []
             | Some s \<Rightarrow>
                 \<exists>i < length sols. s = sols ! i \<and>
                   (\<forall>j < length sols. mobility (sols ! j) \<le> mobility s) \<and>
                   (\<forall>j < i. mobility (sols ! j) < mobility s)) \<and>
            (1 \<le> maxSolutions \<longrightarrow>
               (r = None \<longleftrightarrow>
                  \<not> (\<exists>ord. distinct ord \<and> set ord = {0, 1, 2} \<and>
                         placeable raw b (map (\<lambda>i. h ! i) ord))))"
    by (intro exI [of _ ?sols] exI [of _ ?r] conjI) (rule refl | assumption)+
next
  fix b' pieceId
  show "sorted_wrt rowMajorBefore (getLegalPlacements raw b' pieceId)"
    by (rule getLegalPlacements_rowMajor)
qed

theorem findBestSolution_first_best_witness:
  "\<exists>s. findBestSolution demoCatalog 0 [4, 3, 2] 200 = Inr (Some s) \<and> length (steps s) = 3 \<and>
       mobility s = computeMobility demoCatalog (finalBoard s)"
proof -
  have three: "length [4, 3, 2 :: int] = 3" by simp
  have ex: "\<exists>ord. distinct ord \<and> set ord = {0, 1, 2} \<and>
      placeable demoCatalog 0 (map (\<lambda>i. [4, 3, 2] ! i) ord)"
    using demo_placeable by (intro exI [of _ "[0, 1, 2]"]) auto
  from findBestSolution_first_best [OF three, of demoCatalog 0 200, THEN conjunct1]
  obtain sols r where
    shape: "\<forall>s \<in> set sols. length (steps s) = 3 \<and>
               finalBoard s = step_boardAfter (last (steps s)) \<and>
               mobility s = computeMobility demoCatalog (finalBoard s)"
    and best: "findBestSolution demoCatalog 0 [4, 3, 2] 200 = Inr r"
    and pick: "case r of
               None \<Rightarrow> sols = []
             | Some s \<Rightarrow>
                 \<exists>i < length sols. s = sols ! i \<and>
                   (\<forall>j < length sols. mobility (sols ! j) \<le> mobility s) \<and>
                   (\<forall>j < i. mobility (sols ! j) < mobility s)"
    and null: "1 \<le> (200 :: int) \<longrightarrow>
               (r = None \<longleftrightarrow>
                  \<not> (\<exists>ord. distinct ord \<and> set ord = {0, 1, 2} \<and>
                         placeable demoCatalog 0 (map (\<lambda>i. [4, 3, 2] ! i) ord)))"
    by (elim exE conjE) (rule that; assumption)
  from null ex obtain s where r: "r = Some s"
    by auto
  with pick obtain i where "i < length sols" "s = sols ! i"
    by auto
  then have "s \<in> set sols" by simp
  with shape best r show ?thesis by auto
qed

end
